theory Spec2Isabelle
  imports Main "HOL-Library.Word" "HOL-Library.Signed_Division"
begin

section \<open>Data model of the MJIT coordinator (mjit.c)\<close>

text \<open>
  Heap objects are addressed by references; a reference that is not in the domain of its
  store is a freed (or never allocated) object.  The \<open>length\<close> of a list counts the
  nodes linked into it and is a mathematical integer.  The unit counter
  \<open>mjit_current_unit_num\<close> and the unit ids taken from it are C \<open>int\<close>s that
  \<open>create_unit\<close> increments without a bound: they are 32-bit words, read as signed
  through \<open>sint\<close>, and the increment wraps from \<open>INT_MAX\<close> to \<open>INT_MIN\<close> as it does
  on the two's complement machine.  The two numeric options keep their machine width as
  well, because their normalisation compares them as unsigned and as signed 32-bit values.
\<close>

type_synonym unit_ref = nat
type_synonym node_ref = nat
type_synonym iseq_ref = nat
type_synonym cont_ref = nat
type_synonym rb_serial_t = nat

text \<open>
  Modelled from the spec: the values of the \<open>jit_func\<close> cell (three sentinels and a
  native entry address); the macros are declared in mjit.h.
\<close>

datatype mjit_func_t =
    NOT_ADDED_JIT_ISEQ_FUNC
  | NOT_READY_JIT_ISEQ_FUNC
  | NOT_COMPILED_JIT_ISEQ_FUNC
  | JIT_FUNC nat

datatype pch_status_t = PCH_NOT_READY | PCH_FAILED | PCH_SUCCESS

text \<open>
  Modelled from the spec: \<open>struct mjit_options\<close> (declared in mjit.h), restricted to the
  options mjit.c reads.  \<open>min_calls\<close> is an unsigned and \<open>max_cache_size\<close> a signed
  32-bit integer (read through \<open>sint\<close>).
\<close>

record mjit_options =
  save_temps :: bool
  warnings :: bool
  verbose :: int
  min_calls :: "32 word"
  max_cache_size :: "32 word"

text \<open>
  Modelled from the spec: \<open>struct rb_mjit_unit\<close>, \<open>struct rb_mjit_unit_node\<close> and
  \<open>struct rb_mjit_unit_list\<close> (declared in mjit_internal.h).  A list header holds the
  chain of node addresses reached from \<open>head\<close> through \<open>next\<close>, and the \<open>length\<close>
  counter, which only the list primitives write.
\<close>

record rb_mjit_unit =
  id_u :: "32 word"
  iseq :: "iseq_ref option"
  handle :: "nat option"
  used_code_p :: bool

record rb_mjit_unit_node =
  unit :: unit_ref

record rb_mjit_unit_list =
  chain :: "node_ref list"
  length_l :: int

definition head :: "rb_mjit_unit_list \<Rightarrow> node_ref option" where
  "head l = (case chain l of [] \<Rightarrow> None | n # _ \<Rightarrow> Some n)"

record rb_iseq_constant_body =
  jit_func :: mjit_func_t
  jit_unit :: "unit_ref option"
  total_calls :: nat

datatype imemo_type = imemo_iseq | imemo_other

text \<open>
  A control frame: \<open>pc\<close> (NULL or an address) and the \<open>iseq\<close> slot (NULL, or an imemo
  object of some kind).  An execution context: \<open>vm_stack\<close> (NULL or its base) and the
  frames from \<open>RUBY_VM_END_CONTROL_FRAME(ec) - 1\<close> down to \<open>ec->cfp\<close>, in the order
  the loop of \<open>mark_ec_units\<close> visits them.
\<close>

record rb_control_frame_t =
  pc :: "nat option"
  cfp_iseq :: "(imemo_type \<times> iseq_ref) option"

record rb_execution_context_t =
  vm_stack :: "nat option"
  frames :: "rb_control_frame_t list"

record mjit_cont =
  ec :: rb_execution_context_t
  prev :: "cont_ref option"
  "next" :: "cont_ref option"

record mjit_state =
  mjit_opts :: mjit_options
  mjit_enabled :: bool
  mjit_call_p :: bool
  mjit_unit_queue :: rb_mjit_unit_list
  mjit_active_units :: rb_mjit_unit_list
  mjit_compact_units :: rb_mjit_unit_list
  mjit_current_unit_num :: "32 word"
  mjit_in_gc :: bool
  mjit_in_jit :: bool
  mjit_tmp_dir :: "string option"
  mjit_valid_class_serials :: "rb_serial_t set"
  mjit_pch_file :: "string option"
  mjit_header_file :: "string option"
  mjit_pch_status :: pch_status_t
  mjit_stop_worker_p :: bool
  mjit_worker_stopped :: bool
  first_cont :: "cont_ref option"
  units :: "unit_ref \<rightharpoonup> rb_mjit_unit"
  nodes :: "node_ref \<rightharpoonup> rb_mjit_unit_node"
  conts :: "cont_ref \<rightharpoonup> mjit_cont"
  body :: "iseq_ref \<Rightarrow> rb_iseq_constant_body"
  living_threads :: "rb_execution_context_t list"
  gc_marked :: "iseq_ref list"
  removed_files :: "string option list"
  stderr_out :: "string list"

section \<open>Initialisation\<close>

definition DEFAULT_CACHE_SIZE :: "32 word" where
  "DEFAULT_CACHE_SIZE = 1000"

definition DEFAULT_MIN_CALLS_TO_ADD :: "32 word" where
  "DEFAULT_MIN_CALLS_TO_ADD = 5"

definition MIN_CACHE_SIZE :: "32 word" where
  "MIN_CACHE_SIZE = 10"

text \<open>The three statements under \<open>/* Normalize options */\<close> in \<open>mjit_init\<close>, in order.\<close>

definition normalize_options :: "mjit_options \<Rightarrow> mjit_options" where
  "normalize_options o0 =
     (let o1 = (if min_calls o0 = 0 then o0\<lparr>min_calls := DEFAULT_MIN_CALLS_TO_ADD\<rparr> else o0);
          o2 = (if max_cache_size o1 \<le>s 0
                then o1\<lparr>max_cache_size := DEFAULT_CACHE_SIZE\<rparr> else o1);
          o3 = (if max_cache_size o2 <s MIN_CACHE_SIZE
                then o2\<lparr>max_cache_size := MIN_CACHE_SIZE\<rparr> else o2)
      in o3)"

definition init_list :: "rb_mjit_unit_list" where
  "init_list = \<lparr>chain = [], length_l = 0\<rparr>"

definition mjit_add_class_serial :: "rb_serial_t \<Rightarrow> mjit_state \<Rightarrow> mjit_state" where
  "mjit_add_class_serial class_serial s =
     (if \<not> mjit_enabled s then s
      else s\<lparr>mjit_valid_class_serials := insert class_serial (mjit_valid_class_serials s)\<rparr>)"

definition mjit_remove_class_serial :: "rb_serial_t \<Rightarrow> mjit_state \<Rightarrow> mjit_state" where
  "mjit_remove_class_serial class_serial s =
     (if \<not> mjit_enabled s then s
      else s\<lparr>mjit_valid_class_serials := mjit_valid_class_serials s - {class_serial}\<rparr>)"

text \<open>
  An entry of the root constant table, as \<open>valid_class_serials_add_i\<close> reads it: whether
  the key is a constant id, whether the value is a class or a module, and its class serial.
\<close>

datatype ruby_value_type = T_MODULE | T_CLASS | T_OTHER

record const_entry =
  is_const_id :: bool
  value_type :: ruby_value_type
  value_serial :: rb_serial_t

definition valid_class_serials_add_i :: "const_entry \<Rightarrow> mjit_state \<Rightarrow> mjit_state" where
  "valid_class_serials_add_i ce s =
     (if \<not> is_const_id ce then s
      else if value_type ce = T_MODULE \<or> value_type ce = T_CLASS
           then mjit_add_class_serial (value_serial ce) s
           else s)"

text \<open>
  What \<open>mjit_init\<close> obtains from the host and the operating system: the temporary
  directory chosen by \<open>system_tmpdir\<close>, the header file name and whether it can be opened,
  the unique PCH file name (NULL on failure), the class serials of \<open>rb_cObject\<close> and of the
  class of the top self, the root constant table (NULL or its entries), and whether a
  worker thread can be created.
\<close>

record init_env =
  env_tmp_dir :: string
  env_header_file :: string
  env_header_opens :: bool
  env_pch_file :: "string option"
  env_object_serial :: rb_serial_t
  env_top_self_serial :: rb_serial_t
  env_const_tbl :: "const_entry list option"
  env_thread_created :: bool

definition init_header_filename :: "init_env \<Rightarrow> mjit_state \<Rightarrow> bool \<times> mjit_state" where
  "init_header_filename env s =
     (if \<not> env_header_opens env then (False, s\<lparr>mjit_header_file := None\<rparr>)
      else let s1 = s\<lparr>mjit_header_file := Some (env_header_file env),
                      mjit_pch_file := env_pch_file env\<rparr>
           in if env_pch_file env = None then (False, s1) else (True, s1))"

definition start_worker :: "bool \<Rightarrow> mjit_state \<Rightarrow> bool \<times> mjit_state" where
  "start_worker created s =
     (let s1 = s\<lparr>mjit_stop_worker_p := False, mjit_worker_stopped := False\<rparr>
      in if \<not> created then (False, s1\<lparr>mjit_enabled := False\<rparr>) else (True, s1))"

definition mjit_init :: "mjit_options \<Rightarrow> init_env \<Rightarrow> mjit_state \<Rightarrow> mjit_state" where
  "mjit_init opts env s =
     (let s1 = s\<lparr>mjit_opts := normalize_options opts, mjit_enabled := True,
                  mjit_call_p := True\<rparr>;
          s2 = s1\<lparr>mjit_pch_status := PCH_NOT_READY, mjit_tmp_dir := Some (env_tmp_dir env)\<rparr>
      in case init_header_filename env s2 of
           (False, s3) \<Rightarrow> s3\<lparr>mjit_enabled := False\<rparr>
         | (True, s3) \<Rightarrow>
             (let s4 = s3\<lparr>mjit_unit_queue := init_list, mjit_active_units := init_list,
                          mjit_compact_units := init_list\<rparr>;
                  s5 = s4\<lparr>mjit_valid_class_serials := {}\<rparr>;
                  s6 = mjit_add_class_serial (env_object_serial env) s5;
                  s7 = mjit_add_class_serial (env_top_self_serial env) s6;
                  s8 = (case env_const_tbl env of
                          None \<Rightarrow> s7
                        | Some tbl \<Rightarrow> fold valid_class_serials_add_i tbl s7)
              in snd (start_worker (env_thread_created env) s8)))"

section \<open>Unit and list primitives\<close>

text \<open>
  Modelled from the spec: \<open>create_list_node\<close>, \<open>add_to_list\<close>, \<open>remove_from_list\<close> and
  \<open>free_unit\<close> (defined in mjit_worker.c).  The spec: "\<open>create_list_node(unit)\<close>,
  \<open>add_to_list(node,list)\<close>, \<open>remove_from_list(node,list)\<close> maintain length", a
  submission "push[es] the unit onto the tail of queue", and "\<open>free_unit(unit)\<close>
  releases the artifact handle via the backend and frees the iseq backlink (but not the
  iseq)".  The address of the new node is the allocator's answer, an argument here.
  Freeing a unit that is not allocated does not return (\<open>None\<close>).
\<close>

definition create_list_node :: "unit_ref \<Rightarrow> node_ref \<Rightarrow> mjit_state \<Rightarrow> mjit_state" where
  "create_list_node u a s = s\<lparr>nodes := (nodes s)(a \<mapsto> \<lparr>unit = u\<rparr>)\<rparr>"

definition add_to_list :: "node_ref \<Rightarrow> rb_mjit_unit_list \<Rightarrow> rb_mjit_unit_list" where
  "add_to_list node l = \<lparr>chain = chain l @ [node], length_l = length_l l + 1\<rparr>"

definition remove_from_list :: "node_ref \<Rightarrow> rb_mjit_unit_list \<Rightarrow> rb_mjit_unit_list" where
  "remove_from_list node l = \<lparr>chain = remove1 node (chain l), length_l = length_l l - 1\<rparr>"

definition free_unit :: "unit_ref \<Rightarrow> mjit_state \<Rightarrow> mjit_state option" where
  "free_unit u s =
     (case units s u of
        None \<Rightarrow> None
      | Some un \<Rightarrow>
          Some (s\<lparr>units := (units s)(u := None),
                  body := (case iseq un of
                             None \<Rightarrow> body s
                           | Some i \<Rightarrow> (body s)(i := (body s i)\<lparr>jit_unit := None\<rparr>))\<rparr>))"

text \<open>
  \<open>create_unit\<close>: \<open>a\<close> is the answer of \<open>ZALLOC\<close> (NULL or the address of a zeroed unit).
  \<open>unit->id = mjit_current_unit_num++\<close> is a 32-bit increment.
\<close>

definition create_unit :: "iseq_ref \<Rightarrow> unit_ref option \<Rightarrow> mjit_state \<Rightarrow> mjit_state" where
  "create_unit i a s =
     (case a of
        None \<Rightarrow> s
      | Some u \<Rightarrow>
          s\<lparr>units := (units s)(u \<mapsto> \<lparr>id_u = mjit_current_unit_num s, iseq = Some i,
                                       handle = None, used_code_p = False\<rparr>),
            mjit_current_unit_num := mjit_current_unit_num s + 1,
            body := (body s)(i := (body s i)\<lparr>jit_unit := Some u\<rparr>)\<rparr>)"

text \<open>\<open>node->unit\<close> followed to the unit: both objects must be allocated.\<close>

definition unit_at :: "mjit_state \<Rightarrow> node_ref \<Rightarrow> rb_mjit_unit option" where
  "unit_at s n = (case nodes s n of None \<Rightarrow> None | Some nd \<Rightarrow> units s (unit nd))"

text \<open>\<open>node->unit->iseq->body->total_calls\<close>; the unit's iseq must not be NULL.\<close>

definition calls_at :: "mjit_state \<Rightarrow> node_ref \<Rightarrow> nat option" where
  "calls_at s n =
     (case unit_at s n of
        None \<Rightarrow> None
      | Some un \<Rightarrow> (case iseq un of None \<Rightarrow> None | Some i \<Rightarrow> Some (total_calls (body s i))))"

section \<open>GC hooks\<close>

text \<open>
  The mutex and the condition variables are not part of the state.  Where the calling
  thread waits or sleeps, the other threads run: a \<open>worker\<close> says what they do to the
  shared state during the \<open>k\<close>-th wait of a call.  A call that waits for ever, frees
  an object twice or reads through a freed or NULL pointer does not return: its value
  is \<open>None\<close>.  Diagnostic output through \<open>verbose\<close> is not modelled, but the arguments of
  the call are evaluated.
\<close>

type_synonym worker = "nat \<Rightarrow> mjit_state \<Rightarrow> mjit_state"

partial_function (option) wait_client_wakeup :: "worker \<Rightarrow> nat \<Rightarrow> mjit_state \<Rightarrow> mjit_state option" where
  "wait_client_wakeup w k s =
     (if mjit_in_jit s then wait_client_wakeup w (Suc k) (w k s) else Some s)"

definition mjit_gc_start_hook :: "worker \<Rightarrow> mjit_state \<Rightarrow> mjit_state option" where
  "mjit_gc_start_hook w s =
     (if \<not> mjit_enabled s then Some s
      else case wait_client_wakeup w 0 s of
             None \<Rightarrow> None
           | Some s1 \<Rightarrow> Some (s1\<lparr>mjit_in_gc := True\<rparr>))"

definition mjit_gc_finish_hook :: "mjit_state \<Rightarrow> mjit_state" where
  "mjit_gc_finish_hook s = (if \<not> mjit_enabled s then s else s\<lparr>mjit_in_gc := False\<rparr>)"

definition mjit_free_iseq :: "iseq_ref \<Rightarrow> mjit_state \<Rightarrow> mjit_state option" where
  "mjit_free_iseq i s =
     (if \<not> mjit_enabled s then Some s
      else case jit_unit (body s i) of
             None \<Rightarrow> Some s
           | Some u \<Rightarrow>
               (case units s u of
                  None \<Rightarrow> None
                | Some un \<Rightarrow> Some (s\<lparr>units := (units s)(u \<mapsto> un\<lparr>iseq := None\<rparr>)\<rparr>)))"

fun mark_queue :: "node_ref list \<Rightarrow> mjit_state \<Rightarrow> mjit_state option" where
  "mark_queue [] s = Some s"
| "mark_queue (n # ns) s =
     (case unit_at s n of
        None \<Rightarrow> None
      | Some un \<Rightarrow>
          (case iseq un of
             None \<Rightarrow> mark_queue ns s
           | Some i \<Rightarrow> mark_queue ns (s\<lparr>gc_marked := gc_marked s @ [i]\<rparr>)))"

definition mjit_mark :: "mjit_state \<Rightarrow> mjit_state option" where
  "mjit_mark s =
     (if \<not> mjit_enabled s then Some s else mark_queue (chain (mjit_unit_queue s)) s)"

section \<open>Continuation registry\<close>




partial_function (option) finish_conts :: "cont_ref option \<Rightarrow> mjit_state \<Rightarrow> mjit_state option" where
  "finish_conts c s =
     (case c of
        None \<Rightarrow> Some s
      | Some p \<Rightarrow>
          (case conts s p of
             None \<Rightarrow> None
           | Some ct \<Rightarrow> finish_conts (next ct) (s\<lparr>conts := (conts s)(p := None)\<rparr>)))"

section \<open>Eviction\<close>

text \<open>One iteration of the loop of \<open>mark_ec_units\<close>, for the frame \<open>f\<close>.\<close>

definition mark_frame :: "rb_control_frame_t \<Rightarrow> mjit_state \<Rightarrow> mjit_state option" where
  "mark_frame f s =
     (if pc f = None then Some s
      else case cfp_iseq f of
             None \<Rightarrow> Some s
           | Some (ty, i) \<Rightarrow>
               if ty \<noteq> imemo_iseq then Some s
               else (case jit_unit (body s i) of
                       None \<Rightarrow> Some s
                     | Some u \<Rightarrow>
                         (case units s u of
                            None \<Rightarrow> None
                          | Some un \<Rightarrow>
                              Some (s\<lparr>units := (units s)(u \<mapsto> un\<lparr>used_code_p := True\<rparr>)\<rparr>))))"

fun mark_frames :: "rb_control_frame_t list \<Rightarrow> mjit_state \<Rightarrow> mjit_state option" where
  "mark_frames [] s = Some s"
| "mark_frames (f # fs) s =
     (case mark_frame f s of None \<Rightarrow> None | Some s1 \<Rightarrow> mark_frames fs s1)"

definition mark_ec_units :: "rb_execution_context_t \<Rightarrow> mjit_state \<Rightarrow> mjit_state option" where
  "mark_ec_units e s = (if vm_stack e = None then Some s else mark_frames (frames e) s)"

text \<open>The first loop of \<open>unload_units\<close>: units whose iseq was collected are unloaded.\<close>

fun unload_gced :: "node_ref list \<Rightarrow> mjit_state \<Rightarrow> mjit_state option" where
  "unload_gced [] s = Some s"
| "unload_gced (n # ns) s =
     (case nodes s n of
        None \<Rightarrow> None
      | Some nd \<Rightarrow>
          (case units s (unit nd) of
             None \<Rightarrow> None
           | Some un \<Rightarrow>
               if iseq un = None
               then (case free_unit (unit nd) s of
                       None \<Rightarrow> None
                     | Some s1 \<Rightarrow>
                         unload_gced ns
                           (s1\<lparr>mjit_active_units := remove_from_list n (mjit_active_units s1)\<rparr>))
               else unload_gced ns s))"

text \<open>The second loop: the assertion, then \<open>used_code_p = FALSE\<close>.\<close>

fun clear_used :: "node_ref list \<Rightarrow> mjit_state \<Rightarrow> mjit_state option" where
  "clear_used [] s = Some s"
| "clear_used (n # ns) s =
     (case nodes s n of
        None \<Rightarrow> None
      | Some nd \<Rightarrow>
          (case units s (unit nd) of
             None \<Rightarrow> None
           | Some un \<Rightarrow>
               if iseq un = None \<or> handle un = None then None
               else clear_used ns
                      (s\<lparr>units := (units s)(unit nd \<mapsto> un\<lparr>used_code_p := False\<rparr>)\<rparr>)))"

fun mark_threads :: "rb_execution_context_t list \<Rightarrow> mjit_state \<Rightarrow> mjit_state option" where
  "mark_threads [] s = Some s"
| "mark_threads (e # es) s =
     (case mark_ec_units e s of None \<Rightarrow> None | Some s1 \<Rightarrow> mark_threads es s1)"

partial_function (option) mark_conts :: "cont_ref option \<Rightarrow> mjit_state \<Rightarrow> mjit_state option" where
  "mark_conts c s =
     (case c of
        None \<Rightarrow> Some s
      | Some p \<Rightarrow>
          (case conts s p of
             None \<Rightarrow> None
           | Some ct \<Rightarrow>
               (case mark_ec_units (ec ct) s of
                  None \<Rightarrow> None
                | Some s1 \<Rightarrow> mark_conts (next ct) s1)))"

text \<open>
  The inner loop of the eviction loop: \<open>worst\<close> is \<open>worst_node\<close>.  The call counters are
  read only when \<open>worst_node\<close> is not NULL, as the \<open>||\<close> of the source does.
\<close>

fun find_worst :: "mjit_state \<Rightarrow> node_ref list \<Rightarrow> node_ref option \<Rightarrow> node_ref option option" where
  "find_worst s [] worst = Some worst"
| "find_worst s (n # ns) worst =
     (case unit_at s n of
        None \<Rightarrow> None
      | Some un \<Rightarrow>
          if used_code_p un then find_worst s ns worst
          else (case worst of
                  None \<Rightarrow> find_worst s ns (Some n)
                | Some w \<Rightarrow>
                    (case calls_at s w of
                       None \<Rightarrow> None
                     | Some cw \<Rightarrow>
                         (case calls_at s n of
                            None \<Rightarrow> None
                          | Some cn \<Rightarrow>
                              if cw > cn then find_worst s ns (Some n)
                              else find_worst s ns worst))))"

text \<open>
  \<open>/* Unload the worst node. */\<close>: the arguments of \<open>verbose\<close> and the assertion read
  the unit, its iseq and its handle; then \<open>free_unit\<close> and \<open>remove_from_list\<close>.
\<close>

definition unload_worst :: "node_ref \<Rightarrow> mjit_state \<Rightarrow> mjit_state option" where
  "unload_worst w s =
     (case nodes s w of
        None \<Rightarrow> None
      | Some nd \<Rightarrow>
          (case units s (unit nd) of
             None \<Rightarrow> None
           | Some un \<Rightarrow>
               if iseq un = None \<or> handle un = None then None
               else (case free_unit (unit nd) s of
                       None \<Rightarrow> None
                     | Some s1 \<Rightarrow>
                         Some (s1\<lparr>mjit_active_units :=
                                    remove_from_list w (mjit_active_units s1)\<rparr>))))"

definition evict_more :: "int \<Rightarrow> mjit_state \<Rightarrow> bool" where
  "evict_more delete_num s \<longleftrightarrow>
     length_l (mjit_active_units s) > sint (max_cache_size (mjit_opts s)) - delete_num"

function evict_loop :: "int \<Rightarrow> mjit_state \<Rightarrow> mjit_state option" where
  "evict_loop delete_num s =
     (if evict_more delete_num s
      then (case find_worst s (chain (mjit_active_units s)) None of
              None \<Rightarrow> None
            | Some None \<Rightarrow> Some s
            | Some (Some w) \<Rightarrow>
                (case unload_worst w s of
                   None \<Rightarrow> None
                 | Some s1 \<Rightarrow> evict_loop delete_num s1))
      else Some s)"
  by pat_completeness auto

lemma unload_worst_length:
  "unload_worst w s = Some s1 \<Longrightarrow>
     length_l (mjit_active_units s1) = length_l (mjit_active_units s) - 1 \<and>
     mjit_opts s1 = mjit_opts s"
  by (auto simp: unload_worst_def free_unit_def remove_from_list_def
      split: option.splits if_splits)

termination evict_loop
proof (relation "measure (\<lambda>(d, s). nat (length_l (mjit_active_units s) -
                   (sint (max_cache_size (mjit_opts s)) - d)))")
  show "wf (measure (\<lambda>(d, s). nat (length_l (mjit_active_units s) -
                   (sint (max_cache_size (mjit_opts s)) - d))))"
    by simp
next
  fix delete_num :: int and s :: mjit_state and x2 x2a s1
  assume "evict_more delete_num s" and "unload_worst x2a s = Some s1"
  then show "((delete_num, s1), (delete_num, s)) \<in>
      measure (\<lambda>(d, s). nat (length_l (mjit_active_units s) -
                   (sint (max_cache_size (mjit_opts s)) - d)))"
    using unload_worst_length [of x2a s s1] by (simp add: evict_more_def)
qed

declare evict_loop.simps [simp del]

text \<open>
  \<open>unload_units\<close>: the three scans, then \<open>delete_num\<close> (a C division, which truncates)
  and the eviction loop.  The living threads are those of the state.
\<close>

definition liveness_scan :: "mjit_state \<Rightarrow> mjit_state option" where
  "liveness_scan s =
     (case unload_gced (chain (mjit_active_units s)) s of
        None \<Rightarrow> None
      | Some s1 \<Rightarrow>
          (case clear_used (chain (mjit_active_units s1)) s1 of
             None \<Rightarrow> None
           | Some s2 \<Rightarrow>
               (case mark_threads (living_threads s2) s2 of
                  None \<Rightarrow> None
                | Some s3 \<Rightarrow> mark_conts (first_cont s3) s3)))"

definition unload_units :: "mjit_state \<Rightarrow> mjit_state option" where
  "unload_units s =
     (case liveness_scan s of
        None \<Rightarrow> None
      | Some s1 \<Rightarrow> evict_loop (length_l (mjit_active_units s1) sdiv 10) s1)"

section \<open>Submission and synchronous wait\<close>

text \<open>
  \<open>mjit_add_iseq_to_process\<close>: \<open>ua\<close> is the answer of \<open>ZALLOC\<close> in \<open>create_unit\<close> and \<open>na\<close>
  the address of the node made by \<open>create_list_node\<close>.
\<close>

definition mjit_add_iseq_to_process ::
  "iseq_ref \<Rightarrow> unit_ref option \<Rightarrow> node_ref \<Rightarrow> mjit_state \<Rightarrow> mjit_state option" where
  "mjit_add_iseq_to_process i ua na s =
     (if \<not> mjit_enabled s \<or> mjit_pch_status s = PCH_FAILED then Some s
      else let s1 = s\<lparr>body := (body s)(i := (body s i)\<lparr>jit_func := NOT_READY_JIT_ISEQ_FUNC\<rparr>)\<rparr>;
               s2 = create_unit i ua s1
           in case jit_unit (body s2 i) of
                None \<Rightarrow> Some s2
              | Some u \<Rightarrow>
                  (let s3 = create_list_node u na s2;
                       s4 = s3\<lparr>mjit_unit_queue := add_to_list na (mjit_unit_queue s3)\<rparr>
                   in if length_l (mjit_active_units s4) \<ge> sint (max_cache_size (mjit_opts s4))
                      then unload_units s4
                      else Some s4))"

definition MJIT_WAIT_TIMEOUT_SECONDS :: nat where
  "MJIT_WAIT_TIMEOUT_SECONDS = 60"

text \<open>
  The loop of \<open>mjit_get_iseq_func\<close>, entered with \<open>tries\<close> tries made and \<open>sleeps\<close> calls of
  \<open>rb_thread_wait_for\<close> done; the worker acts during each sleep.  The result is the
  returned \<open>jit_func\<close>, the number of sleeps and the state.
\<close>

function get_iseq_func_loop ::
  "worker \<Rightarrow> iseq_ref \<Rightarrow> nat \<Rightarrow> nat \<Rightarrow> mjit_state \<Rightarrow> mjit_func_t \<times> nat \<times> mjit_state" where
  "get_iseq_func_loop w b tries sleeps s =
     (if jit_func (body s b) = NOT_READY_JIT_ISEQ_FUNC
      then (if Suc tries div 1000 > MJIT_WAIT_TIMEOUT_SECONDS \<or> mjit_pch_status s = PCH_FAILED
            then (let s1 = s\<lparr>body := (body s)
                                (b := (body s b)\<lparr>jit_func := NOT_COMPILED_JIT_ISEQ_FUNC\<rparr>)\<rparr>;
                      s2 = (if warnings (mjit_opts s1) \<or> verbose (mjit_opts s1) \<noteq> 0
                            then s1\<lparr>stderr_out := stderr_out s1 @
                                     [''MJIT warning: timed out to wait for JIT finish'']\<rparr>
                            else s1)
                  in (jit_func (body s2 b), sleeps, s2))
            else get_iseq_func_loop w b (Suc tries) (Suc sleeps) (w (Suc tries) s))
      else (jit_func (body s b), sleeps, s))"
  by pat_completeness auto
termination
  by (relation "measure (\<lambda>(w, b, tries, sleeps, s). 61000 - tries)")
     (auto simp: MJIT_WAIT_TIMEOUT_SECONDS_def)

declare get_iseq_func_loop.simps [simp del]

definition mjit_get_iseq_func ::
  "worker \<Rightarrow> iseq_ref \<Rightarrow> mjit_state \<Rightarrow> mjit_func_t \<times> nat \<times> mjit_state" where
  "mjit_get_iseq_func w b s = get_iseq_func_loop w b 0 0 s"

section \<open>Worker lifecycle\<close>


partial_function (option) wait_worker_stopped :: "worker \<Rightarrow> nat \<Rightarrow> mjit_state \<Rightarrow> mjit_state option" where
  "wait_worker_stopped w k s =
     (if \<not> mjit_worker_stopped s then wait_worker_stopped w (Suc k) (w k s) else Some s)"

definition stop_worker :: "worker \<Rightarrow> mjit_state \<Rightarrow> mjit_state option" where
  "stop_worker w s = wait_worker_stopped w 0 (s\<lparr>mjit_stop_worker_p := True\<rparr>)"





partial_function (option) wait_pch_wakeup :: "worker \<Rightarrow> nat \<Rightarrow> mjit_state \<Rightarrow> mjit_state option" where
  "wait_pch_wakeup w k s =
     (if mjit_pch_status s = PCH_NOT_READY then wait_pch_wakeup w (Suc k) (w k s) else Some s)"

fun free_list :: "node_ref list \<Rightarrow> mjit_state \<Rightarrow> mjit_state option" where
  "free_list [] s = Some s"
| "free_list (n # ns) s =
     (case nodes s n of
        None \<Rightarrow> None
      | Some nd \<Rightarrow>
          (case free_unit (unit nd) s of
             None \<Rightarrow> None
           | Some s1 \<Rightarrow> free_list ns (s1\<lparr>nodes := (nodes s1)(n := None)\<rparr>)))"

text \<open>
  \<open>mjit_finish\<close> in two parts: the waits for the PCH thread and for the worker (during
  which the other threads run), and the teardown after them.
\<close>

definition finish_wait :: "worker \<Rightarrow> mjit_state \<Rightarrow> mjit_state option" where
  "finish_wait w s =
     (case wait_pch_wakeup w 0 s of None \<Rightarrow> None | Some s1 \<Rightarrow> stop_worker w s1)"

definition finish_teardown :: "mjit_state \<Rightarrow> mjit_state option" where
  "finish_teardown s =
     (let s1 = (if \<not> save_temps (mjit_opts s)
                then s\<lparr>removed_files := removed_files s @ [mjit_pch_file s]\<rparr> else s);
          s2 = s1\<lparr>mjit_header_file := None, mjit_tmp_dir := None, mjit_pch_file := None,
                  mjit_call_p := False\<rparr>
      in case free_list (chain (mjit_unit_queue s2)) s2 of
           None \<Rightarrow> None
         | Some s3 \<Rightarrow>
             (case free_list (chain (mjit_active_units s3)) s3 of
                None \<Rightarrow> None
              | Some s4 \<Rightarrow>
                  (case free_list (chain (mjit_compact_units s4)) s4 of
                     None \<Rightarrow> None
                   | Some s5 \<Rightarrow>
                       (case finish_conts (first_cont s5) s5 of
                          None \<Rightarrow> None
                        | Some s6 \<Rightarrow> Some (s6\<lparr>mjit_enabled := False\<rparr>)))))"

definition mjit_finish :: "worker \<Rightarrow> mjit_state \<Rightarrow> mjit_state option" where
  "mjit_finish w s =
     (if \<not> mjit_enabled s then Some s
      else case finish_wait w s of None \<Rightarrow> None | Some s1 \<Rightarrow> finish_teardown s1)"

section \<open>Concrete states\<close>

text \<open>The globals of mjit.c before \<open>mjit_init\<close>: static storage is zero-initialised.\<close>

definition zero_options :: mjit_options where
  "zero_options = \<lparr>save_temps = False, warnings = False, verbose = 0, min_calls = 0,
                    max_cache_size = 0\<rparr>"

definition zero_body :: rb_iseq_constant_body where
  "zero_body = \<lparr>jit_func = NOT_ADDED_JIT_ISEQ_FUNC, jit_unit = None, total_calls = 0\<rparr>"

definition initial_state :: mjit_state where
  "initial_state =
     \<lparr>mjit_opts = zero_options, mjit_enabled = False, mjit_call_p = False,
      mjit_unit_queue = init_list, mjit_active_units = init_list,
      mjit_compact_units = init_list, mjit_current_unit_num = 0,
      mjit_in_gc = False, mjit_in_jit = False, mjit_tmp_dir = None,
      mjit_valid_class_serials = {}, mjit_pch_file = None, mjit_header_file = None,
      mjit_pch_status = PCH_NOT_READY, mjit_stop_worker_p = False,
      mjit_worker_stopped = False, first_cont = None,
      units = Map.empty, nodes = Map.empty, conts = Map.empty,
      body = (\<lambda>_. zero_body), living_threads = [], gc_marked = [],
      removed_files = [], stderr_out = []\<rparr>"

definition example_env :: init_env where
  "example_env =
     \<lparr>env_tmp_dir = ''/tmp'', env_header_file = ''rb_mjit_min_header.h'',
      env_header_opens = True, env_pch_file = Some ''/tmp/_ruby_mjit_h.h.gch'',
      env_object_serial = 1, env_top_self_serial = 2,
      env_const_tbl = Some [\<lparr>is_const_id = True, value_type = T_CLASS, value_serial = 3\<rparr>],
      env_thread_created = True\<rparr>"

text \<open>A worker that leaves a given \<open>jit_func\<close> cell, the PCH status, the options and stderr alone.\<close>

definition quiet_worker :: "worker \<Rightarrow> iseq_ref \<Rightarrow> bool" where
  "quiet_worker w b \<longleftrightarrow>
     (\<forall>k s. jit_func (body (w k s) b) = jit_func (body s b) \<and>
            mjit_pch_status (w k s) = mjit_pch_status s \<and>
            mjit_opts (w k s) = mjit_opts s \<and>
            stderr_out (w k s) = stderr_out s)"

text \<open>An enabled coordinator after a successful start, with the default options.\<close>

definition running_state :: mjit_state where
  "running_state =
     initial_state\<lparr>mjit_opts := normalize_options zero_options, mjit_enabled := True,
                    mjit_call_p := True, mjit_pch_status := PCH_SUCCESS\<rparr>"

text \<open>The same, with iseq 7 submitted and its compilation never finished.\<close>

definition waiting_state :: mjit_state where
  "waiting_state =
     running_state\<lparr>body := (body running_state)
                     (7 := zero_body\<lparr>jit_func := NOT_READY_JIT_ISEQ_FUNC\<rparr>)\<rparr>"

section \<open>Observations on the active list\<close>

text \<open>
  A node is in use when the unit it holds is allocated and has \<open>used_code_p\<close> set,
  evictable when the flag is clear, and loaded when the unit has an iseq and a handle
  (the assertion of the second loop of \<open>unload_units\<close>).
\<close>

definition in_use :: "mjit_state \<Rightarrow> node_ref \<Rightarrow> bool" where
  "in_use s n = (case unit_at s n of None \<Rightarrow> False | Some un \<Rightarrow> used_code_p un)"

definition evictable :: "mjit_state \<Rightarrow> node_ref \<Rightarrow> bool" where
  "evictable s n = (case unit_at s n of None \<Rightarrow> False | Some un \<Rightarrow> \<not> used_code_p un)"

definition loaded :: "mjit_state \<Rightarrow> node_ref \<Rightarrow> bool" where
  "loaded s n =
     (case unit_at s n of None \<Rightarrow> False | Some un \<Rightarrow> iseq un \<noteq> None \<and> handle un \<noteq> None)"

definition active_loaded :: "mjit_state \<Rightarrow> bool" where
  "active_loaded s \<longleftrightarrow> (\<forall>n \<in> set (chain (mjit_active_units s)). loaded s n)"

text \<open>
  The active list is well formed when every node holds a loaded unit and no two nodes
  hold the same unit.
\<close>

definition active_wf :: "mjit_state \<Rightarrow> bool" where
  "active_wf s \<longleftrightarrow>
     active_loaded s \<and>
     distinct (map (\<lambda>n. map_option unit (nodes s n)) (chain (mjit_active_units s)))"

definition all_active_in_use :: "mjit_state \<Rightarrow> bool" where
  "all_active_in_use s \<longleftrightarrow> (\<forall>n \<in> set (chain (mjit_active_units s)). in_use s n)"

text \<open>
  The spec's choice of a victim: the node \<open>w\<close> of the chain is evictable, every evictable
  node before it has strictly more calls, and every evictable node after it has at
  least as many.
\<close>

definition least_called_first :: "mjit_state \<Rightarrow> node_ref list \<Rightarrow> node_ref \<Rightarrow> bool" where
  "least_called_first s ns w \<longleftrightarrow>
     (\<exists>pre post c. ns = pre @ w # post \<and> evictable s w \<and> calls_at s w = Some c \<and>
        (\<forall>m \<in> set pre. evictable s m \<longrightarrow> (\<exists>cm. calls_at s m = Some cm \<and> c < cm)) \<and>
        (\<forall>m \<in> set post. evictable s m \<longrightarrow> (\<exists>cm. calls_at s m = Some cm \<and> c \<le> cm)))"

section \<open>Observations on the liveness scan\<close>

text \<open>
  The unit whose flag \<open>mark_ec_units\<close> sets for a frame: the \<open>jit_unit\<close> of the frame's
  iseq, when \<open>pc\<close> is not NULL and the slot holds an iseq.  The units of an execution
  context are those of its frames, unless \<open>vm_stack\<close> is NULL.
\<close>

definition frame_unit :: "mjit_state \<Rightarrow> rb_control_frame_t \<Rightarrow> unit_ref option" where
  "frame_unit s f =
     (if pc f = None then None
      else case cfp_iseq f of
             None \<Rightarrow> None
           | Some (ty, i) \<Rightarrow> if ty \<noteq> imemo_iseq then None else jit_unit (body s i))"

definition ec_units :: "mjit_state \<Rightarrow> rb_execution_context_t \<Rightarrow> unit_ref list" where
  "ec_units s e = (if vm_stack e = None then [] else List.map_filter (frame_unit s) (frames e))"

text \<open>The records reached from a continuation pointer through \<open>next\<close>, up to NULL.\<close>

fun cont_path :: "(cont_ref \<rightharpoonup> mjit_cont) \<Rightarrow> cont_ref option \<Rightarrow> cont_ref list \<Rightarrow> bool" where
  "cont_path h c [] \<longleftrightarrow> c = None"
| "cont_path h c (p # ps) \<longleftrightarrow>
     c = Some p \<and> (case h p of None \<Rightarrow> False | Some ct \<Rightarrow> cont_path h (next ct) ps)"

definition cont_units :: "mjit_state \<Rightarrow> cont_ref \<Rightarrow> unit_ref list" where
  "cont_units s c = (case conts s c of None \<Rightarrow> [] | Some ct \<Rightarrow> ec_units s (ec ct))"

text \<open>
  A unit is on a live stack when it is a unit of the execution context of a living
  thread, or of a continuation registered in the list that starts at \<open>first_cont\<close>.
\<close>

definition on_live_stack :: "mjit_state \<Rightarrow> unit_ref \<Rightarrow> bool" where
  "on_live_stack s u \<longleftrightarrow>
     (\<exists>e \<in> set (living_threads s). u \<in> set (ec_units s e)) \<or>
     (\<exists>cs. cont_path (conts s) (first_cont s) cs \<and> (\<exists>c \<in> set cs. u \<in> set (cont_units s c)))"

definition unit_marked :: "mjit_state \<Rightarrow> unit_ref \<Rightarrow> bool" where
  "unit_marked s u = (case units s u of None \<Rightarrow> False | Some un \<Rightarrow> used_code_p un)"

text \<open>
  Two relations between states, for the proofs: only \<open>used_code_p\<close> flags differ; and
  moreover no flag that was set is cleared.
\<close>

definition clear_flag :: "rb_mjit_unit \<Rightarrow> rb_mjit_unit" where
  "clear_flag un = un\<lparr>used_code_p := False\<rparr>"

definition flags_only :: "mjit_state \<Rightarrow> mjit_state \<Rightarrow> bool" where
  "flags_only s s' \<longleftrightarrow>
     s' = s\<lparr>units := units s'\<rparr> \<and>
     (\<forall>u. map_option clear_flag (units s' u) = map_option clear_flag (units s u))"

definition marks :: "mjit_state \<Rightarrow> mjit_state \<Rightarrow> bool" where
  "marks s s' \<longleftrightarrow> flags_only s s' \<and> (\<forall>u. unit_marked s u \<longrightarrow> unit_marked s' u)"

text \<open>
  What \<open>unload_units\<close> may change, for the proofs: the units, the iseq bodies and the
  active list; no \<open>jit_func\<close> cell; the active chain only shrinks; and a unit that no
  node of \<open>H\<close> holds is kept, up to its flag.
\<close>

definition held :: "node_ref set \<Rightarrow> mjit_state \<Rightarrow> unit_ref \<Rightarrow> bool" where
  "held H s u \<longleftrightarrow> (\<exists>n \<in> H. case nodes s n of None \<Rightarrow> False | Some nd \<Rightarrow> unit nd = u)"

definition evicts :: "node_ref set \<Rightarrow> mjit_state \<Rightarrow> mjit_state \<Rightarrow> bool" where
  "evicts H s s' \<longleftrightarrow>
     s' = s\<lparr>units := units s', body := body s', mjit_active_units := mjit_active_units s'\<rparr> \<and>
     (\<forall>i. jit_func (body s' i) = jit_func (body s i)) \<and>
     set (chain (mjit_active_units s')) \<subseteq> set (chain (mjit_active_units s)) \<and>
     (\<forall>u. \<not> held H s u \<longrightarrow>
          map_option clear_flag (units s' u) = map_option clear_flag (units s u))"

text \<open>The unit \<open>create_unit\<close> makes for an iseq when the unit counter is \<open>k\<close>.\<close>

definition new_unit :: "32 word \<Rightarrow> iseq_ref \<Rightarrow> rb_mjit_unit" where
  "new_unit k i = \<lparr>id_u = k, iseq = Some i, handle = None, used_code_p = False\<rparr>"

text \<open>
  A full cache of ten units (\<open>max_cache_size = 10\<close>): node \<open>100 + k\<close> holds unit
  \<open>200 + k\<close> of iseq \<open>300 + k\<close>.  Iseq 300 is on the stack of the only living thread and
  its unit is marked; iseq 301, on the stack of the only registered continuation, has
  two calls, every other iseq one.
\<close>

definition full_cache_state :: mjit_state where
  "full_cache_state =
     running_state\<lparr>
       mjit_opts := (mjit_opts running_state)\<lparr>max_cache_size := 10\<rparr>,
       mjit_active_units := \<lparr>chain = [100, 101, 102, 103, 104, 105, 106, 107, 108, 109],
                              length_l = 10\<rparr>,
       mjit_current_unit_num := 10,
       nodes := (\<lambda>n. if 100 \<le> n \<and> n < 110 then Some \<lparr>unit = n + 100\<rparr> else None),
       units := (\<lambda>u. if 200 \<le> u \<and> u < 210
                      then Some \<lparr>id_u = of_nat (u - 200), iseq = Some (u + 100), handle = Some u,
                                 used_code_p = (u = 200)\<rparr>
                      else None),
       body := (\<lambda>i. if 300 \<le> i \<and> i < 310
                     then \<lparr>jit_func = JIT_FUNC i, jit_unit = Some (i - 100),
                           total_calls = (if i = 301 then 2 else 1)\<rparr>
                     else zero_body),
       living_threads := [\<lparr>vm_stack = Some 0,
                            frames = [\<lparr>pc = Some 1, cfp_iseq = Some (imemo_iseq, 300)\<rparr>]\<rparr>],
       first_cont := Some 400,
       conts := [400 \<mapsto> \<lparr>ec = \<lparr>vm_stack = Some 0,
                                    frames = [\<lparr>pc = Some 1,
                                               cfp_iseq = Some (imemo_iseq, 301)\<rparr>]\<rparr>,
                              prev = None, next = None\<rparr>]\<rparr>"

text \<open>The same cache with every unit marked as used.\<close>

definition busy_cache_state :: mjit_state where
  "busy_cache_state =
     full_cache_state\<lparr>
       units := (\<lambda>u. if 200 \<le> u \<and> u < 210
                      then Some \<lparr>id_u = of_nat (u - 200), iseq = Some (u + 100), handle = Some u,
                                 used_code_p = True\<rparr>
                      else None)\<rparr>"

text \<open>A terminal value of a \<open>jit_func\<close> cell: \<open>NOT_COMPILED\<close> or a native entry address.\<close>

definition terminal :: "mjit_func_t \<Rightarrow> bool" where
  "terminal f =
     (case f of NOT_COMPILED_JIT_ISEQ_FUNC \<Rightarrow> True | JIT_FUNC p \<Rightarrow> True | _ \<Rightarrow> False)"


section \<open>Runs of coordinator operations\<close>






text \<open>
  Modelled from the spec: what the worker (\<open>mjit_worker\<close>, defined in mjit_worker.c) does
  to a \<open>jit_func\<close> cell.  The spec: the worker "on success moves the unit into the active
  list and writes a function pointer into the iseq body", and the transitions of a cell
  are "\<open>NOT_READY \<rightarrow> pointer\<close> (success) or \<open>NOT_READY \<rightarrow> NOT_COMPILED\<close> (failure)".
  So a step of the worker leaves the cell of \<open>i\<close> as it is, or takes it from
  \<open>NOT_READY\<close> to a terminal value.
\<close>

definition cell_step :: "mjit_func_t \<Rightarrow> mjit_func_t \<Rightarrow> bool" where
  "cell_step a b \<longleftrightarrow> b = a \<or> (a = NOT_READY_JIT_ISEQ_FUNC \<and> terminal b)"



text \<open>Iseq 7 submitted twice to the running coordinator; the allocator answers 0, then 1.\<close>

definition submit_twice :: "mjit_state option" where
  "submit_twice =
     Option.bind (mjit_add_iseq_to_process 7 (Some 0) 0 running_state)
       (mjit_add_iseq_to_process 7 (Some 1) 1)"

text \<open>A worker that stops as soon as it is asked to.\<close>

definition stopping_worker :: worker where
  "stopping_worker k s = s\<lparr>mjit_worker_stopped := mjit_stop_worker_p s\<rparr>"

text \<open>
  A running coordinator at shutdown: one queued unit, two loaded units (the iseq of the
  second was collected) and one registered continuation.
\<close>

definition finishing_state :: mjit_state where
  "finishing_state =
     running_state\<lparr>
       mjit_unit_queue := \<lparr>chain = [50], length_l = 1\<rparr>,
       mjit_active_units := \<lparr>chain = [100, 101], length_l = 2\<rparr>,
       mjit_current_unit_num := 3,
       first_cont := Some 400,
       body := (body running_state)
                 (7 := \<lparr>jit_func = NOT_READY_JIT_ISEQ_FUNC, jit_unit = Some 60, total_calls = 5\<rparr>,
                  300 := \<lparr>jit_func = JIT_FUNC 1, jit_unit = Some 200, total_calls = 9\<rparr>),
       units := [60 \<mapsto> new_unit 2 7,
                 200 \<mapsto> \<lparr>id_u = 0, iseq = Some 300, handle = Some 1, used_code_p = False\<rparr>,
                 201 \<mapsto> \<lparr>id_u = 1, iseq = None, handle = Some 2, used_code_p = False\<rparr>],
       nodes := [50 \<mapsto> \<lparr>unit = 60\<rparr>, 100 \<mapsto> \<lparr>unit = 200\<rparr>, 101 \<mapsto> \<lparr>unit = 201\<rparr>],
       conts := [400 \<mapsto> \<lparr>ec = \<lparr>vm_stack = None, frames = []\<rparr>, prev = None, next = None\<rparr>]\<rparr>"

section \<open>Option normalisation\<close>

lemma mjit_opts_add_class_serial:
  "mjit_opts (mjit_add_class_serial c s) = mjit_opts s"
  by (simp add: mjit_add_class_serial_def)

lemma mjit_opts_valid_class_serials_add_i:
  "mjit_opts (valid_class_serials_add_i ce s) = mjit_opts s"
  by (simp add: valid_class_serials_add_i_def mjit_opts_add_class_serial)

lemma mjit_opts_fold_add_i:
  "mjit_opts (fold valid_class_serials_add_i tbl s) = mjit_opts s"
  by (induction tbl arbitrary: s) (simp_all add: mjit_opts_valid_class_serials_add_i)

lemma mjit_opts_mjit_init:
  "mjit_opts (mjit_init opts env s) = normalize_options opts"
  by (simp add: mjit_init_def init_header_filename_def start_worker_def Let_def
      mjit_opts_add_class_serial mjit_opts_fold_add_i split: option.split)

section \<open>The normalised options\<close>

text \<open>
  C6, as stated: when \<open>mjit_init\<close> is called with \<open>max_cache_size\<close> equal to 0, the
  normalised \<open>max_cache_size\<close> is 10.  The code does not do that: 0 is not positive, so the
  first test replaces it by the default 1000, which the second test leaves alone.
\<close>

theorem mjit_init_zero_cache_size_counterexample:
  "max_cache_size zero_options = 0 \<and>
   max_cache_size (mjit_opts (mjit_init zero_options example_env initial_state)) \<noteq> 10"
  by (simp add: mjit_opts_mjit_init normalize_options_def Let_def DEFAULT_CACHE_SIZE_def
      DEFAULT_MIN_CALLS_TO_ADD_def MIN_CACHE_SIZE_def zero_options_def)

text \<open>
  C6, amended: when \<open>mjit_init\<close> is called with \<open>max_cache_size\<close> equal to 0, the
  normalised \<open>max_cache_size\<close> is the default cache size 1000.
\<close>

theorem mjit_init_zero_cache_size_default:
  "max_cache_size opts = 0 \<Longrightarrow> max_cache_size (mjit_opts (mjit_init opts env s)) = 1000"
  by (simp add: mjit_opts_mjit_init normalize_options_def Let_def DEFAULT_CACHE_SIZE_def
      DEFAULT_MIN_CALLS_TO_ADD_def MIN_CACHE_SIZE_def)

theorem mjit_init_zero_cache_size_default_witness:
  "max_cache_size zero_options = 0 \<and>
   max_cache_size (mjit_opts (mjit_init zero_options example_env initial_state)) = 1000"
  using mjit_init_zero_cache_size_default [of zero_options example_env initial_state]
  by (simp add: zero_options_def)

text \<open>
  C7: for every options value, \<open>mjit_init\<close> normalises the options so that \<open>min_calls\<close>
  equal to 0 becomes 5, a non-positive \<open>max_cache_size\<close> becomes the default 1000, and the
  resulting \<open>max_cache_size\<close> is at least 10 (as signed 32-bit integers).
\<close>

theorem mjit_init_normalizes_options:
  "(min_calls opts = 0 \<longrightarrow> min_calls (mjit_opts (mjit_init opts env s)) = 5) \<and>
   (max_cache_size opts \<le>s 0 \<longrightarrow> max_cache_size (mjit_opts (mjit_init opts env s)) = 1000) \<and>
   10 \<le>s max_cache_size (mjit_opts (mjit_init opts env s))"
  by (simp add: mjit_opts_mjit_init normalize_options_def Let_def DEFAULT_CACHE_SIZE_def
      DEFAULT_MIN_CALLS_TO_ADD_def MIN_CACHE_SIZE_def word_sle_eq word_sless_alt)

theorem mjit_init_normalizes_options_witness:
  "min_calls zero_options = 0 \<and>
   min_calls (mjit_opts (mjit_init zero_options example_env initial_state)) = 5 \<and>
   max_cache_size zero_options \<le>s 0 \<and>
   max_cache_size (mjit_opts (mjit_init zero_options example_env initial_state)) = 1000 \<and>
   10 \<le>s max_cache_size (mjit_opts (mjit_init zero_options example_env initial_state))"
  using mjit_init_normalizes_options [of zero_options example_env initial_state]
  by (simp add: zero_options_def)

section \<open>Entry points of a disabled coordinator\<close>

text \<open>
  C10: whenever \<open>mjit_enabled\<close> is false, each of \<open>mjit_gc_start_hook\<close>,
  \<open>mjit_gc_finish_hook\<close>, \<open>mjit_free_iseq\<close>, \<open>mjit_mark\<close>, \<open>mjit_add_iseq_to_process\<close>,
  \<open>mjit_add_class_serial\<close> and \<open>mjit_remove_class_serial\<close> returns at once and leaves the
  whole state as it was: the three unit lists, \<open>mjit_in_gc\<close>, \<open>mjit_in_jit\<close>, the class
  serial set and the \<open>jit_func\<close> and \<open>jit_unit\<close> cells of the iseq among the rest.
\<close>

theorem disabled_entry_points_no_effect:
  "\<not> mjit_enabled s \<Longrightarrow>
     mjit_gc_start_hook w s = Some s \<and>
     mjit_gc_finish_hook s = s \<and>
     mjit_free_iseq i s = Some s \<and>
     mjit_mark s = Some s \<and>
     mjit_add_iseq_to_process i ua na s = Some s \<and>
     mjit_add_class_serial c s = s \<and>
     mjit_remove_class_serial c s = s"
  by (simp add: mjit_gc_start_hook_def mjit_gc_finish_hook_def mjit_free_iseq_def
      mjit_mark_def mjit_add_iseq_to_process_def mjit_add_class_serial_def
      mjit_remove_class_serial_def)

theorem disabled_entry_points_no_effect_witness:
  "\<not> mjit_enabled initial_state \<and>
     mjit_gc_start_hook (\<lambda>k s. s) initial_state = Some initial_state \<and>
     mjit_gc_finish_hook initial_state = initial_state \<and>
     mjit_free_iseq 7 initial_state = Some initial_state \<and>
     mjit_mark initial_state = Some initial_state \<and>
     mjit_add_iseq_to_process 7 (Some 0) 0 initial_state = Some initial_state \<and>
     mjit_add_class_serial 3 initial_state = initial_state \<and>
     mjit_remove_class_serial 3 initial_state = initial_state"
  using disabled_entry_points_no_effect [of initial_state "\<lambda>k s. s" 7 "Some 0" 0 3]
  by (simp add: initial_state_def)

section \<open>Synchronous wait\<close>

lemma mjit_get_iseq_func_ready:
  "jit_func (body s b) \<noteq> NOT_READY_JIT_ISEQ_FUNC \<Longrightarrow>
     mjit_get_iseq_func w b s = (jit_func (body s b), 0, s)"
  by (simp add: mjit_get_iseq_func_def get_iseq_func_loop.simps)

lemma mjit_get_iseq_func_pch_failed:
  "jit_func (body s b) = NOT_READY_JIT_ISEQ_FUNC \<Longrightarrow> mjit_pch_status s = PCH_FAILED \<Longrightarrow>
     fst (mjit_get_iseq_func w b s) = NOT_COMPILED_JIT_ISEQ_FUNC \<and>
     fst (snd (mjit_get_iseq_func w b s)) = 0"
  by (simp add: mjit_get_iseq_func_def get_iseq_func_loop.simps Let_def)

lemma get_iseq_func_loop_timeout:
  "quiet_worker w b \<Longrightarrow> jit_func (body s b) = NOT_READY_JIT_ISEQ_FUNC \<Longrightarrow>
     mjit_pch_status s \<noteq> PCH_FAILED \<Longrightarrow> tries \<le> 60999 \<Longrightarrow>
     (case get_iseq_func_loop w b tries sleeps s of
        (f, n, s') \<Rightarrow> f = NOT_COMPILED_JIT_ISEQ_FUNC \<and> n = sleeps + (60999 - tries) \<and>
           jit_func (body s' b) = NOT_COMPILED_JIT_ISEQ_FUNC \<and>
           stderr_out s' = stderr_out s @
             (if warnings (mjit_opts s) \<or> verbose (mjit_opts s) \<noteq> 0
              then [''MJIT warning: timed out to wait for JIT finish''] else []))"
proof (induction w b tries sleeps s rule: get_iseq_func_loop.induct)
  case (1 w b tries sleeps s)
  note qw = "1.prems"(1) and nr = "1.prems"(2) and pch = "1.prems"(3) and le = "1.prems"(4)
  show ?case
  proof (cases "tries = 60999")
    case True
    then have tmo: "Suc tries div 1000 > MJIT_WAIT_TIMEOUT_SECONDS"
      by (simp add: MJIT_WAIT_TIMEOUT_SECONDS_def)
    show ?thesis
      using nr tmo True by (subst get_iseq_func_loop.simps) (simp add: Let_def)
  next
    case False
    with le have lt: "tries < 60999" by simp
    then have "Suc tries div 1000 < 61" by (simp add: div_less_iff_less_mult)
    then have nt: "\<not> (Suc tries div 1000 > MJIT_WAIT_TIMEOUT_SECONDS \<or>
                     mjit_pch_status s = PCH_FAILED)"
      using pch by (simp add: MJIT_WAIT_TIMEOUT_SECONDS_def)
    have step: "get_iseq_func_loop w b tries sleeps s =
        get_iseq_func_loop w b (Suc tries) (Suc sleeps) (w (Suc tries) s)"
      using nr nt by (subst get_iseq_func_loop.simps) simp
    have w1: "jit_func (body (w (Suc tries) s) b) = NOT_READY_JIT_ISEQ_FUNC"
      and w2: "mjit_pch_status (w (Suc tries) s) \<noteq> PCH_FAILED"
      and w3: "mjit_opts (w (Suc tries) s) = mjit_opts s"
      and w4: "stderr_out (w (Suc tries) s) = stderr_out s"
      using qw nr pch by (simp_all add: quiet_worker_def)
    from lt have le': "Suc tries \<le> 60999" by simp
    have ar: "Suc sleeps + (60999 - Suc tries) = sleeps + (60999 - tries)"
      using lt by arith
    show ?thesis
      using "1.IH" [OF nr nt qw w1 w2 le'] unfolding step w3 w4 ar .
  qed
qed

text \<open>
  C5 says that a cell that stays \<open>NOT_READY\<close> is given up after 60 000 polls of 1 ms
  (about 60 s, as \<open>MJIT_WAIT_TIMEOUT_SECONDS\<close> is documented).  The code tests
  \<open>tries / 1000 > 60\<close>, which first holds at the 61 000th try: while the worker leaves the
  cell and the PCH status alone, \<open>mjit_get_iseq_func\<close> sleeps 60 999 times before it
  stores and returns \<open>NOT_COMPILED\<close>, and it prints at most one warning.
\<close>

theorem mjit_get_iseq_func_timeout_polls:
  "quiet_worker w b \<Longrightarrow> jit_func (body s b) = NOT_READY_JIT_ISEQ_FUNC \<Longrightarrow>
     mjit_pch_status s \<noteq> PCH_FAILED \<Longrightarrow>
     fst (mjit_get_iseq_func w b s) = NOT_COMPILED_JIT_ISEQ_FUNC \<and>
     fst (snd (mjit_get_iseq_func w b s)) = 60999 \<and>
     fst (snd (mjit_get_iseq_func w b s)) \<noteq> 60000 \<and>
     jit_func (body (snd (snd (mjit_get_iseq_func w b s))) b) = NOT_COMPILED_JIT_ISEQ_FUNC \<and>
     length (stderr_out (snd (snd (mjit_get_iseq_func w b s)))) \<le> length (stderr_out s) + 1"
  using get_iseq_func_loop_timeout [of w b s 0 0]
  by (simp add: mjit_get_iseq_func_def split: prod.splits)

theorem mjit_get_iseq_func_timeout_polls_witness:
  "quiet_worker (\<lambda>k s. s) 7 \<and> jit_func (body waiting_state 7) = NOT_READY_JIT_ISEQ_FUNC \<and>
     mjit_pch_status waiting_state \<noteq> PCH_FAILED \<and>
     fst (mjit_get_iseq_func (\<lambda>k s. s) 7 waiting_state) = NOT_COMPILED_JIT_ISEQ_FUNC \<and>
     fst (snd (mjit_get_iseq_func (\<lambda>k s. s) 7 waiting_state)) = 60999"
proof -
  have q: "quiet_worker (\<lambda>k s. s) 7"
    by (simp add: quiet_worker_def)
  have nr: "jit_func (body waiting_state 7) = NOT_READY_JIT_ISEQ_FUNC"
    by (simp add: waiting_state_def)
  have pch: "mjit_pch_status waiting_state \<noteq> PCH_FAILED"
    by (simp add: waiting_state_def running_state_def initial_state_def)
  show ?thesis
    using mjit_get_iseq_func_timeout_polls [OF q nr pch] q nr pch by simp
qed

section \<open>The eviction loop\<close>

lemma loaded_cases: "loaded s n \<Longrightarrow> in_use s n \<or> evictable s n"
  by (simp add: loaded_def in_use_def evictable_def split: option.splits)

lemma loaded_calls: "loaded s n \<Longrightarrow> \<exists>c. calls_at s n = Some c"
  by (auto simp: loaded_def calls_at_def split: option.splits)

lemma find_worst_in_use:
  "in_use s n \<Longrightarrow> find_worst s (n # ns) worst = find_worst s ns worst"
  by (simp add: in_use_def split: option.splits)

lemma find_worst_first:
  "evictable s n \<Longrightarrow> find_worst s (n # ns) None = find_worst s ns (Some n)"
  by (simp add: evictable_def split: option.splits)

lemma find_worst_compare:
  "evictable s n \<Longrightarrow> calls_at s w = Some cw \<Longrightarrow> calls_at s n = Some cn \<Longrightarrow>
     find_worst s (n # ns) (Some w) = find_worst s ns (Some (if cw > cn then n else w))"
  by (simp add: evictable_def split: option.splits)

declare find_worst.simps(2) [simp del]

lemma find_worst_all_in_use:
  "\<forall>n \<in> set ns. in_use s n \<Longrightarrow> find_worst s ns worst = Some worst"
  by (induction ns) (simp_all add: find_worst_in_use)

lemma find_worst_from:
  "\<forall>n \<in> set ns. loaded s n \<Longrightarrow> calls_at s w0 = Some c0 \<Longrightarrow>
     \<exists>r. find_worst s ns (Some w0) = Some (Some r) \<and>
       ((r = w0 \<and> (\<forall>m \<in> set ns. evictable s m \<longrightarrow> (\<exists>cm. calls_at s m = Some cm \<and> c0 \<le> cm))) \<or>
        (\<exists>pre post c. ns = pre @ r # post \<and> evictable s r \<and> calls_at s r = Some c \<and> c < c0 \<and>
           (\<forall>m \<in> set pre. evictable s m \<longrightarrow> (\<exists>cm. calls_at s m = Some cm \<and> c < cm)) \<and>
           (\<forall>m \<in> set post. evictable s m \<longrightarrow> (\<exists>cm. calls_at s m = Some cm \<and> c \<le> cm))))"
proof (induction ns arbitrary: w0 c0)
  case Nil
  then show ?case by simp
next
  case (Cons n ns)
  from Cons.prems have ln: "loaded s n" and lns: "\<forall>m \<in> set ns. loaded s m" by simp_all
  from loaded_calls [OF ln] obtain cn where cn: "calls_at s n = Some cn" ..
  show ?case
  proof (cases "evictable s n")
    case False
    with loaded_cases [OF ln] have u: "in_use s n" by simp
    from Cons.IH [OF lns Cons.prems(2)] obtain r where
      r: "find_worst s ns (Some w0) = Some (Some r)" and
      d: "(r = w0 \<and> (\<forall>m \<in> set ns. evictable s m \<longrightarrow> (\<exists>cm. calls_at s m = Some cm \<and> c0 \<le> cm))) \<or>
        (\<exists>pre post c. ns = pre @ r # post \<and> evictable s r \<and> calls_at s r = Some c \<and> c < c0 \<and>
           (\<forall>m \<in> set pre. evictable s m \<longrightarrow> (\<exists>cm. calls_at s m = Some cm \<and> c < cm)) \<and>
           (\<forall>m \<in> set post. evictable s m \<longrightarrow> (\<exists>cm. calls_at s m = Some cm \<and> c \<le> cm)))"
      by blast
    from d show ?thesis
    proof
      assume "r = w0 \<and> (\<forall>m \<in> set ns. evictable s m \<longrightarrow> (\<exists>cm. calls_at s m = Some cm \<and> c0 \<le> cm))"
      with r u False show ?thesis by (auto simp: find_worst_in_use)
    next
      assume "\<exists>pre post c. ns = pre @ r # post \<and> evictable s r \<and> calls_at s r = Some c \<and> c < c0 \<and>
           (\<forall>m \<in> set pre. evictable s m \<longrightarrow> (\<exists>cm. calls_at s m = Some cm \<and> c < cm)) \<and>
           (\<forall>m \<in> set post. evictable s m \<longrightarrow> (\<exists>cm. calls_at s m = Some cm \<and> c \<le> cm))"
      then obtain pre post c where p: "ns = pre @ r # post" "evictable s r" "calls_at s r = Some c"
        "c < c0" "\<forall>m \<in> set pre. evictable s m \<longrightarrow> (\<exists>cm. calls_at s m = Some cm \<and> c < cm)"
        "\<forall>m \<in> set post. evictable s m \<longrightarrow> (\<exists>cm. calls_at s m = Some cm \<and> c \<le> cm)"
        by blast
      have "n # ns = (n # pre) @ r # post" using p(1) by simp
      moreover have "\<forall>m \<in> set (n # pre). evictable s m \<longrightarrow> (\<exists>cm. calls_at s m = Some cm \<and> c < cm)"
        using p(5) False by simp
      ultimately have "\<exists>pre post c. n # ns = pre @ r # post \<and> evictable s r \<and> calls_at s r = Some c \<and> c < c0 \<and>
           (\<forall>m \<in> set pre. evictable s m \<longrightarrow> (\<exists>cm. calls_at s m = Some cm \<and> c < cm)) \<and>
           (\<forall>m \<in> set post. evictable s m \<longrightarrow> (\<exists>cm. calls_at s m = Some cm \<and> c \<le> cm))"
        using p(2,3,4,6) by blast
      with r u show ?thesis by (simp add: find_worst_in_use)
    qed
  next
    case True
    show ?thesis
    proof (cases "c0 > cn")
      case gt: True
      have step: "find_worst s (n # ns) (Some w0) = find_worst s ns (Some n)"
        using find_worst_compare [OF True Cons.prems(2) cn] gt by simp
      from Cons.IH [OF lns cn] obtain r where
        r: "find_worst s ns (Some n) = Some (Some r)" and
        d: "(r = n \<and> (\<forall>m \<in> set ns. evictable s m \<longrightarrow> (\<exists>cm. calls_at s m = Some cm \<and> cn \<le> cm))) \<or>
          (\<exists>pre post c. ns = pre @ r # post \<and> evictable s r \<and> calls_at s r = Some c \<and> c < cn \<and>
             (\<forall>m \<in> set pre. evictable s m \<longrightarrow> (\<exists>cm. calls_at s m = Some cm \<and> c < cm)) \<and>
             (\<forall>m \<in> set post. evictable s m \<longrightarrow> (\<exists>cm. calls_at s m = Some cm \<and> c \<le> cm)))"
        by blast
      from d have "\<exists>pre post c. n # ns = pre @ r # post \<and> evictable s r \<and> calls_at s r = Some c \<and> c < c0 \<and>
           (\<forall>m \<in> set pre. evictable s m \<longrightarrow> (\<exists>cm. calls_at s m = Some cm \<and> c < cm)) \<and>
           (\<forall>m \<in> set post. evictable s m \<longrightarrow> (\<exists>cm. calls_at s m = Some cm \<and> c \<le> cm))"
      proof
        assume a: "r = n \<and> (\<forall>m \<in> set ns. evictable s m \<longrightarrow> (\<exists>cm. calls_at s m = Some cm \<and> cn \<le> cm))"
        have "n # ns = [] @ r # ns" using a by simp
        moreover have "\<forall>m \<in> set []. evictable s m \<longrightarrow> (\<exists>cm. calls_at s m = Some cm \<and> cn < cm)" by simp
        ultimately show ?thesis using a True cn gt by blast
      next
        assume "\<exists>pre post c. ns = pre @ r # post \<and> evictable s r \<and> calls_at s r = Some c \<and> c < cn \<and>
             (\<forall>m \<in> set pre. evictable s m \<longrightarrow> (\<exists>cm. calls_at s m = Some cm \<and> c < cm)) \<and>
             (\<forall>m \<in> set post. evictable s m \<longrightarrow> (\<exists>cm. calls_at s m = Some cm \<and> c \<le> cm))"
        then obtain pre post c where p: "ns = pre @ r # post" "evictable s r" "calls_at s r = Some c"
          "c < cn" "\<forall>m \<in> set pre. evictable s m \<longrightarrow> (\<exists>cm. calls_at s m = Some cm \<and> c < cm)"
          "\<forall>m \<in> set post. evictable s m \<longrightarrow> (\<exists>cm. calls_at s m = Some cm \<and> c \<le> cm)"
          by blast
        have "n # ns = (n # pre) @ r # post" using p(1) by simp
        moreover have "\<forall>m \<in> set (n # pre). evictable s m \<longrightarrow> (\<exists>cm. calls_at s m = Some cm \<and> c < cm)"
          using p(4,5) cn by simp
        moreover have "c < c0" using p(4) gt by simp
        ultimately show ?thesis using p(2,3,6) by blast
      qed
      with r step show ?thesis by simp
    next
      case le: False
      have step: "find_worst s (n # ns) (Some w0) = find_worst s ns (Some w0)"
        using find_worst_compare [OF True Cons.prems(2) cn] le by simp
      from Cons.IH [OF lns Cons.prems(2)] obtain r where
        r: "find_worst s ns (Some w0) = Some (Some r)" and
        d: "(r = w0 \<and> (\<forall>m \<in> set ns. evictable s m \<longrightarrow> (\<exists>cm. calls_at s m = Some cm \<and> c0 \<le> cm))) \<or>
          (\<exists>pre post c. ns = pre @ r # post \<and> evictable s r \<and> calls_at s r = Some c \<and> c < c0 \<and>
             (\<forall>m \<in> set pre. evictable s m \<longrightarrow> (\<exists>cm. calls_at s m = Some cm \<and> c < cm)) \<and>
             (\<forall>m \<in> set post. evictable s m \<longrightarrow> (\<exists>cm. calls_at s m = Some cm \<and> c \<le> cm)))"
        by blast
      from d show ?thesis
      proof
        assume "r = w0 \<and> (\<forall>m \<in> set ns. evictable s m \<longrightarrow> (\<exists>cm. calls_at s m = Some cm \<and> c0 \<le> cm))"
        with r step cn le show ?thesis by auto
      next
        assume "\<exists>pre post c. ns = pre @ r # post \<and> evictable s r \<and> calls_at s r = Some c \<and> c < c0 \<and>
             (\<forall>m \<in> set pre. evictable s m \<longrightarrow> (\<exists>cm. calls_at s m = Some cm \<and> c < cm)) \<and>
             (\<forall>m \<in> set post. evictable s m \<longrightarrow> (\<exists>cm. calls_at s m = Some cm \<and> c \<le> cm))"
        then obtain pre post c where p: "ns = pre @ r # post" "evictable s r" "calls_at s r = Some c"
          "c < c0" "\<forall>m \<in> set pre. evictable s m \<longrightarrow> (\<exists>cm. calls_at s m = Some cm \<and> c < cm)"
          "\<forall>m \<in> set post. evictable s m \<longrightarrow> (\<exists>cm. calls_at s m = Some cm \<and> c \<le> cm)"
          by blast
        have "n # ns = (n # pre) @ r # post" using p(1) by simp
        moreover have "\<forall>m \<in> set (n # pre). evictable s m \<longrightarrow> (\<exists>cm. calls_at s m = Some cm \<and> c < cm)"
          using p(4,5) cn le by simp
        ultimately have "\<exists>pre post c. n # ns = pre @ r # post \<and> evictable s r \<and> calls_at s r = Some c \<and> c < c0 \<and>
           (\<forall>m \<in> set pre. evictable s m \<longrightarrow> (\<exists>cm. calls_at s m = Some cm \<and> c < cm)) \<and>
           (\<forall>m \<in> set post. evictable s m \<longrightarrow> (\<exists>cm. calls_at s m = Some cm \<and> c \<le> cm))"
          using p(2,3,4,6) by blast
        with r step show ?thesis by simp
      qed
    qed
  qed
qed

lemma find_worst_least_called_first:
  "\<forall>n \<in> set ns. loaded s n \<Longrightarrow> \<exists>n \<in> set ns. evictable s n \<Longrightarrow>
     \<exists>w. find_worst s ns None = Some (Some w) \<and> least_called_first s ns w"
proof (induction ns)
  case Nil
  then show ?case by simp
next
  case (Cons n ns)
  from Cons.prems have ln: "loaded s n" and lns: "\<forall>m \<in> set ns. loaded s m" by simp_all
  show ?case
  proof (cases "evictable s n")
    case False
    with loaded_cases [OF ln] have u: "in_use s n" by simp
    from Cons.prems(2) False have "\<exists>m \<in> set ns. evictable s m" by auto
    from Cons.IH [OF lns this] obtain w where
      w: "find_worst s ns None = Some (Some w)" and l: "least_called_first s ns w" by blast
    from l obtain pre post c where p: "ns = pre @ w # post" "evictable s w" "calls_at s w = Some c"
        "\<forall>m \<in> set pre. evictable s m \<longrightarrow> (\<exists>cm. calls_at s m = Some cm \<and> c < cm)"
        "\<forall>m \<in> set post. evictable s m \<longrightarrow> (\<exists>cm. calls_at s m = Some cm \<and> c \<le> cm)"
      unfolding least_called_first_def by blast
    have "n # ns = (n # pre) @ w # post" using p(1) by simp
    moreover have "\<forall>m \<in> set (n # pre). evictable s m \<longrightarrow> (\<exists>cm. calls_at s m = Some cm \<and> c < cm)"
      using p(4) False by simp
    ultimately have "least_called_first s (n # ns) w"
      unfolding least_called_first_def using p(2,3,5) by blast
    with w u show ?thesis by (simp add: find_worst_in_use)
  next
    case True
    from loaded_calls [OF ln] obtain cn where cn: "calls_at s n = Some cn" ..
    from find_worst_from [OF lns cn] obtain r where
      r: "find_worst s ns (Some n) = Some (Some r)" and
      d: "(r = n \<and> (\<forall>m \<in> set ns. evictable s m \<longrightarrow> (\<exists>cm. calls_at s m = Some cm \<and> cn \<le> cm))) \<or>
        (\<exists>pre post c. ns = pre @ r # post \<and> evictable s r \<and> calls_at s r = Some c \<and> c < cn \<and>
           (\<forall>m \<in> set pre. evictable s m \<longrightarrow> (\<exists>cm. calls_at s m = Some cm \<and> c < cm)) \<and>
           (\<forall>m \<in> set post. evictable s m \<longrightarrow> (\<exists>cm. calls_at s m = Some cm \<and> c \<le> cm)))"
      by blast
    from d have "least_called_first s (n # ns) r"
    proof
      assume a: "r = n \<and> (\<forall>m \<in> set ns. evictable s m \<longrightarrow> (\<exists>cm. calls_at s m = Some cm \<and> cn \<le> cm))"
      have "n # ns = [] @ r # ns" using a by simp
      moreover have "\<forall>m \<in> set []. evictable s m \<longrightarrow> (\<exists>cm. calls_at s m = Some cm \<and> cn < cm)" by simp
      ultimately show ?thesis unfolding least_called_first_def using a True cn by blast
    next
      assume "\<exists>pre post c. ns = pre @ r # post \<and> evictable s r \<and> calls_at s r = Some c \<and> c < cn \<and>
           (\<forall>m \<in> set pre. evictable s m \<longrightarrow> (\<exists>cm. calls_at s m = Some cm \<and> c < cm)) \<and>
           (\<forall>m \<in> set post. evictable s m \<longrightarrow> (\<exists>cm. calls_at s m = Some cm \<and> c \<le> cm))"
      then obtain pre post c where p: "ns = pre @ r # post" "evictable s r" "calls_at s r = Some c"
        "c < cn" "\<forall>m \<in> set pre. evictable s m \<longrightarrow> (\<exists>cm. calls_at s m = Some cm \<and> c < cm)"
        "\<forall>m \<in> set post. evictable s m \<longrightarrow> (\<exists>cm. calls_at s m = Some cm \<and> c \<le> cm)"
        by blast
      have "n # ns = (n # pre) @ r # post" using p(1) by simp
      moreover have "\<forall>m \<in> set (n # pre). evictable s m \<longrightarrow> (\<exists>cm. calls_at s m = Some cm \<and> c < cm)"
        using p(4,5) cn by simp
      ultimately show ?thesis unfolding least_called_first_def using p(2,3,6) by blast
    qed
    with r True show ?thesis by (simp add: find_worst_first)
  qed
qed

lemma unload_worst_loaded:
  "loaded s w \<Longrightarrow>
     \<exists>nd s1. nodes s w = Some nd \<and> unload_worst w s = Some s1 \<and> units s1 (unit nd) = None \<and>
       chain (mjit_active_units s1) = remove1 w (chain (mjit_active_units s)) \<and>
       length_l (mjit_active_units s1) = length_l (mjit_active_units s) - 1"
  by (auto simp: loaded_def unit_at_def unload_worst_def free_unit_def remove_from_list_def
      split: option.splits)

lemmas full_cache_defs = full_cache_state_def running_state_def initial_state_def
  normalize_options_def zero_options_def DEFAULT_CACHE_SIZE_def DEFAULT_MIN_CALLS_TO_ADD_def
  MIN_CACHE_SIZE_def init_list_def zero_body_def

lemma full_cache_find_worst:
  "find_worst full_cache_state (chain (mjit_active_units full_cache_state)) None = Some (Some 102)"
  by (simp add: full_cache_defs find_worst.simps unit_at_def calls_at_def)

lemma full_cache_loaded: "active_loaded full_cache_state"
  by (simp add: active_loaded_def loaded_def full_cache_defs unit_at_def)

lemma full_cache_evict_more: "evict_more 1 full_cache_state"
  by (simp add: evict_more_def full_cache_defs)

lemma full_cache_evictable: "evictable full_cache_state 102"
  by (simp add: evictable_def full_cache_defs unit_at_def)

lemma unload_worst_wf:
  assumes wf: "active_wf s" and w: "w \<in> set (chain (mjit_active_units s))"
    and u: "unload_worst w s = Some s1"
  shows "active_wf s1"
proof -
  let ?f = "\<lambda>n. map_option unit (nodes s n)"
  let ?c = "chain (mjit_active_units s)"
  from wf have al: "\<forall>n \<in> set ?c. loaded s n" and d: "distinct (map ?f ?c)"
    by (simp_all add: active_wf_def active_loaded_def)
  from d have dc: "distinct ?c" and inj: "inj_on ?f (set ?c)"
    by (simp_all add: distinct_map)
  from u obtain nd un where nd: "nodes s w = Some nd" and un: "units s (unit nd) = Some un"
    and s1: "s1 = s\<lparr>units := (units s)(unit nd := None),
                body := (case iseq un of None \<Rightarrow> body s
                         | Some i \<Rightarrow> (body s)(i := (body s i)\<lparr>jit_unit := None\<rparr>)),
                mjit_active_units := remove_from_list w (mjit_active_units s)\<rparr>"
    by (auto simp: unload_worst_def free_unit_def split: option.splits if_splits)
  have c1: "chain (mjit_active_units s1) = remove1 w ?c"
    by (simp add: s1 remove_from_list_def)
  have n1: "nodes s1 = nodes s" by (simp add: s1)
  have "distinct (map ?f (remove1 w ?c))"
    using dc inj by (auto simp: distinct_map intro: inj_on_subset dest: notin_set_remove1)
  then have d1: "distinct (map (\<lambda>n. map_option unit (nodes s1 n)) (chain (mjit_active_units s1)))"
    by (simp add: c1 n1)
  have "\<forall>n \<in> set (remove1 w ?c). loaded s1 n"
  proof
    fix n assume n: "n \<in> set (remove1 w ?c)"
    with dc have nc: "n \<in> set ?c" and nw: "n \<noteq> w" by simp_all
    from al nc have ln: "loaded s n" by simp
    then obtain ndn where ndn: "nodes s n = Some ndn"
      by (auto simp: loaded_def unit_at_def split: option.splits)
    from inj nc w nw have "?f n \<noteq> ?f w" by (auto dest: inj_onD)
    with nd ndn have "unit ndn \<noteq> unit nd" by simp
    with ln ndn show "loaded s1 n" by (simp add: loaded_def unit_at_def s1)
  qed
  with d1 c1 show ?thesis by (simp add: active_wf_def active_loaded_def)
qed

lemma full_cache_wf: "active_wf full_cache_state"
  using full_cache_loaded by (simp add: active_wf_def full_cache_defs)

text \<open>
  C1: in the eviction loop of \<open>unload_units\<close>, on a well-formed active list, each
  iteration picks among the nodes whose unit has \<open>used_code_p\<close> false the one whose
  iseq has the smallest \<open>total_calls\<close>, the first such node in list order, evicts it (the
  unit is freed, the node unlinked, the length decremented) and goes on; the loop stops
  at once when the length has reached the target \<open>max_cache_size - delete_num\<close>, or when
  no node is evictable.  An eviction leaves the list well formed, so the same holds at
  the next iteration.
\<close>

theorem evict_loop_iteration:
  "active_wf s \<Longrightarrow>
     (\<not> evict_more delete_num s \<longrightarrow> evict_loop delete_num s = Some s) \<and>
     (evict_more delete_num s \<and> \<not> (\<exists>n \<in> set (chain (mjit_active_units s)). evictable s n) \<longrightarrow>
        evict_loop delete_num s = Some s) \<and>
     (evict_more delete_num s \<and> (\<exists>n \<in> set (chain (mjit_active_units s)). evictable s n) \<longrightarrow>
        (\<exists>w nd s1. find_worst s (chain (mjit_active_units s)) None = Some (Some w) \<and>
           least_called_first s (chain (mjit_active_units s)) w \<and>
           nodes s w = Some nd \<and> unload_worst w s = Some s1 \<and> units s1 (unit nd) = None \<and>
           chain (mjit_active_units s1) = remove1 w (chain (mjit_active_units s)) \<and>
           length_l (mjit_active_units s1) = length_l (mjit_active_units s) - 1 \<and>
           active_wf s1 \<and> evict_loop delete_num s = evict_loop delete_num s1))"
proof (intro conjI impI)
  assume "\<not> evict_more delete_num s"
  then show "evict_loop delete_num s = Some s"
    by (simp add: evict_loop.simps)
next
  assume wf: "active_wf s"
    and a: "evict_more delete_num s \<and> \<not> (\<exists>n \<in> set (chain (mjit_active_units s)). evictable s n)"
  from wf have al: "active_loaded s" by (simp add: active_wf_def)
  from al a have "\<forall>n \<in> set (chain (mjit_active_units s)). in_use s n"
    using loaded_cases by (auto simp: active_loaded_def)
  from find_worst_all_in_use [OF this] a show "evict_loop delete_num s = Some s"
    by (simp add: evict_loop.simps)
next
  assume wf: "active_wf s"
    and a: "evict_more delete_num s \<and> (\<exists>n \<in> set (chain (mjit_active_units s)). evictable s n)"
  from wf have al: "active_loaded s" by (simp add: active_wf_def)
  from al have l: "\<forall>n \<in> set (chain (mjit_active_units s)). loaded s n"
    by (simp add: active_loaded_def)
  from find_worst_least_called_first [OF l] a obtain w where
    w: "find_worst s (chain (mjit_active_units s)) None = Some (Some w)" and
    lc: "least_called_first s (chain (mjit_active_units s)) w" by blast
  from lc have wc: "w \<in> set (chain (mjit_active_units s))"
    by (auto simp: least_called_first_def)
  with l have "loaded s w" by simp
  from unload_worst_loaded [OF this] obtain nd s1 where
    u: "nodes s w = Some nd" "unload_worst w s = Some s1" "units s1 (unit nd) = None"
      "chain (mjit_active_units s1) = remove1 w (chain (mjit_active_units s))"
      "length_l (mjit_active_units s1) = length_l (mjit_active_units s) - 1"
    by blast
  have "evict_loop delete_num s = evict_loop delete_num s1"
    using a w u(2) by (subst evict_loop.simps) simp
  with w lc u unload_worst_wf [OF wf wc u(2)] show "\<exists>w nd s1. find_worst s (chain (mjit_active_units s)) None = Some (Some w) \<and>
           least_called_first s (chain (mjit_active_units s)) w \<and>
           nodes s w = Some nd \<and> unload_worst w s = Some s1 \<and> units s1 (unit nd) = None \<and>
           chain (mjit_active_units s1) = remove1 w (chain (mjit_active_units s)) \<and>
           length_l (mjit_active_units s1) = length_l (mjit_active_units s) - 1 \<and>
           active_wf s1 \<and> evict_loop delete_num s = evict_loop delete_num s1"
    by blast
qed

theorem evict_loop_iteration_witness:
  "active_wf full_cache_state \<and> evict_more 1 full_cache_state \<and>
   evictable full_cache_state 102 \<and>
   least_called_first full_cache_state (chain (mjit_active_units full_cache_state)) 102 \<and>
   (\<exists>s1. unload_worst 102 full_cache_state = Some s1 \<and>
      chain (mjit_active_units s1) = [100, 101, 103, 104, 105, 106, 107, 108, 109] \<and>
      length_l (mjit_active_units s1) = 9 \<and> unit_at s1 102 = None \<and>
      evict_loop 1 full_cache_state = Some s1)"
proof -
  have ex: "\<exists>n \<in> set (chain (mjit_active_units full_cache_state)). evictable full_cache_state n"
    using full_cache_evictable by (auto simp: full_cache_state_def)
  from evict_loop_iteration [OF full_cache_wf, of 1] full_cache_evict_more ex
  obtain w nd s1 where
    w: "find_worst full_cache_state (chain (mjit_active_units full_cache_state)) None = Some (Some w)"
    and lc: "least_called_first full_cache_state (chain (mjit_active_units full_cache_state)) w"
    and u: "nodes full_cache_state w = Some nd" "unload_worst w full_cache_state = Some s1"
      "units s1 (unit nd) = None"
      "chain (mjit_active_units s1) = remove1 w (chain (mjit_active_units full_cache_state))"
      "length_l (mjit_active_units s1) = length_l (mjit_active_units full_cache_state) - 1"
    and e: "evict_loop 1 full_cache_state = evict_loop 1 s1"
    by blast
  from w full_cache_find_worst have w102: "w = 102" by simp
  have c: "chain (mjit_active_units s1) = [100, 101, 103, 104, 105, 106, 107, 108, 109]"
    using u(4) w102 by (simp add: full_cache_state_def)
  have l: "length_l (mjit_active_units s1) = 9"
    using u(5) by (simp add: full_cache_state_def)
  have o: "mjit_opts s1 = mjit_opts full_cache_state"
    using unload_worst_length [OF u(2)] by simp
  have "\<not> evict_more 1 s1"
    using l o by (simp add: evict_more_def full_cache_defs)
  then have f: "evict_loop 1 s1 = Some s1"
    by (simp add: evict_loop.simps)
  have n: "nodes s1 = nodes full_cache_state"
    using u(2) by (auto simp: unload_worst_def free_unit_def split: option.splits if_splits)
  have "unit_at s1 102 = None"
    using u(1,3) w102 n by (simp add: unit_at_def)
  with lc u(2) c l e f w102 full_cache_wf full_cache_evict_more full_cache_evictable
  show ?thesis by simp
qed

text \<open>
  C9: when every unit of the active list has \<open>used_code_p\<close> set, the eviction loop returns
  (it is a total function) and returns the state it was given: nothing is evicted.
\<close>

theorem evict_loop_all_in_use:
  "all_active_in_use s \<Longrightarrow> evict_loop delete_num s = Some s"
  using find_worst_all_in_use [of "chain (mjit_active_units s)" s None]
  by (simp add: evict_loop.simps all_active_in_use_def)

theorem evict_loop_all_in_use_witness:
  "all_active_in_use busy_cache_state \<and> evict_more 1 busy_cache_state \<and>
   evict_loop 1 busy_cache_state = Some busy_cache_state"
proof -
  have a: "all_active_in_use busy_cache_state"
    by (simp add: all_active_in_use_def in_use_def unit_at_def busy_cache_state_def
        full_cache_defs)
  have m: "evict_more 1 busy_cache_state"
    by (simp add: evict_more_def busy_cache_state_def full_cache_defs)
  show ?thesis using evict_loop_all_in_use [OF a, of 1] a m by simp
qed

section \<open>Units in use survive the eviction loop\<close>

lemma find_worst_evictable:
  "find_worst s ns worst = Some (Some w) \<Longrightarrow> (\<And>x. worst = Some x \<Longrightarrow> evictable s x) \<Longrightarrow>
     evictable s w"
proof (induction ns arbitrary: worst)
  case Nil
  then show ?case by simp
next
  case (Cons n ns)
  from Cons.prems(1) obtain un where un: "unit_at s n = Some un"
    by (auto simp: find_worst.simps split: option.splits)
  show ?case
  proof (cases "used_code_p un")
    case True
    with un Cons.prems(1) have "find_worst s ns worst = Some (Some w)"
      by (simp add: find_worst.simps)
    from Cons.IH [OF this Cons.prems(2)] show ?thesis .
  next
    case False
    with un have en: "evictable s n" by (simp add: evictable_def)
    show ?thesis
    proof (cases worst)
      case None
      with un False Cons.prems(1) have "find_worst s ns (Some n) = Some (Some w)"
        by (simp add: find_worst.simps)
      from Cons.IH [OF this] en show ?thesis by simp
    next
      case (Some w0)
      with un False Cons.prems(1) have
        "find_worst s ns (Some n) = Some (Some w) \<or> find_worst s ns (Some w0) = Some (Some w)"
        by (auto simp: find_worst.simps split: option.splits if_splits)
      then show ?thesis
      proof
        assume "find_worst s ns (Some n) = Some (Some w)"
        from Cons.IH [OF this] en show ?thesis by simp
      next
        assume "find_worst s ns (Some w0) = Some (Some w)"
        from Cons.IH [OF this] Cons.prems(2) Some show ?thesis by simp
      qed
    qed
  qed
qed

lemma unload_worst_keeps_in_use:
  assumes "unload_worst w s = Some s1" and "evictable s w" and "in_use s n"
  shows "in_use s1 n \<and> nodes s1 = nodes s \<and>
     (n \<in> set (chain (mjit_active_units s)) \<longrightarrow> n \<in> set (chain (mjit_active_units s1)))"
proof -
  from assms(1) obtain ndw uw where w: "nodes s w = Some ndw" "units s (unit ndw) = Some uw"
    and s1: "s1 = s\<lparr>units := (units s)(unit ndw := None),
                body := (case iseq uw of None \<Rightarrow> body s
                         | Some i \<Rightarrow> (body s)(i := (body s i)\<lparr>jit_unit := None\<rparr>)),
                mjit_active_units := remove_from_list w (mjit_active_units s)\<rparr>"
    by (auto simp: unload_worst_def free_unit_def split: option.splits if_splits)
  from assms(2) w have uwf: "\<not> used_code_p uw" by (simp add: evictable_def unit_at_def)
  from assms(3) obtain ndn un where n: "nodes s n = Some ndn" "units s (unit ndn) = Some un"
    "used_code_p un"
    by (auto simp: in_use_def unit_at_def split: option.splits)
  from w n uwf have ne: "unit ndn \<noteq> unit ndw" "n \<noteq> w" by auto
  have "in_use s1 n" using n ne by (simp add: s1 in_use_def unit_at_def)
  moreover have "nodes s1 = nodes s" by (simp add: s1)
  moreover have "n \<in> set (chain (mjit_active_units s)) \<longrightarrow> n \<in> set (chain (mjit_active_units s1))"
    using ne(2) by (simp add: s1 remove_from_list_def)
  ultimately show ?thesis by simp
qed

lemma evict_loop_keeps_in_use:
  "evict_loop delete_num s = Some s' \<Longrightarrow> in_use s n \<Longrightarrow> n \<in> set (chain (mjit_active_units s)) \<Longrightarrow>
     in_use s' n \<and> nodes s' = nodes s \<and> n \<in> set (chain (mjit_active_units s'))"
proof (induction delete_num s rule: evict_loop.induct)
  case (1 delete_num s)
  show ?case
  proof (cases "evict_more delete_num s")
    case False
    with "1.prems" show ?thesis by (simp add: evict_loop.simps)
  next
    case True
    show ?thesis
    proof (cases "find_worst s (chain (mjit_active_units s)) None")
      case None
      with True "1.prems"(1) show ?thesis by (simp add: evict_loop.simps)
    next
      case (Some r)
      show ?thesis
      proof (cases r)
        case None
        with Some True "1.prems" show ?thesis by (simp add: evict_loop.simps)
      next
        case (Some w)
        with \<open>find_worst s (chain (mjit_active_units s)) None = Some r\<close>
        have fw: "find_worst s (chain (mjit_active_units s)) None = Some (Some w)" by simp
        from find_worst_evictable [OF fw] have ew: "evictable s w" by simp
        from fw True "1.prems"(1) obtain s1 where
          u: "unload_worst w s = Some s1" and e: "evict_loop delete_num s1 = Some s'"
          by (auto simp: evict_loop.simps split: option.splits)
        from unload_worst_keeps_in_use [OF u ew "1.prems"(2)] "1.prems"(3)
        have k: "in_use s1 n" "nodes s1 = nodes s" "n \<in> set (chain (mjit_active_units s1))"
          by simp_all
        from "1.IH" [OF True \<open>find_worst s (chain (mjit_active_units s)) None = Some r\<close> Some u e k(1,3)] k(2)
        show ?thesis by simp
      qed
    qed
  qed
qed

section \<open>The liveness scan marks the units on live stacks\<close>

lemma flags_only_refl: "flags_only s s"
  by (simp add: flags_only_def)

lemma flags_only_trans:
  assumes "flags_only s s1" and "flags_only s1 s2"
  shows "flags_only s s2"
proof -
  from assms(1) have a: "s1 = s\<lparr>units := units s1\<rparr>" by (simp add: flags_only_def)
  from assms(2) have b: "s2 = s1\<lparr>units := units s2\<rparr>" by (simp add: flags_only_def)
  have "s2 = s\<lparr>units := units s1\<rparr>\<lparr>units := units s2\<rparr>"
    by (subst b, subst a) simp
  then have "s2 = s\<lparr>units := units s2\<rparr>" by simp
  moreover have "\<forall>u. map_option clear_flag (units s2 u) = map_option clear_flag (units s u)"
    using assms by (simp add: flags_only_def)
  ultimately show ?thesis by (simp add: flags_only_def)
qed

lemma marks_refl: "marks s s"
  by (simp add: marks_def flags_only_refl)

lemma marks_trans: "marks s s1 \<Longrightarrow> marks s1 s2 \<Longrightarrow> marks s s2"
  by (auto simp: marks_def intro: flags_only_trans)

lemma flags_only_fields:
  assumes "flags_only s s'"
  shows "body s' = body s \<and> nodes s' = nodes s \<and> conts s' = conts s \<and>
     first_cont s' = first_cont s \<and> living_threads s' = living_threads s \<and>
     mjit_active_units s' = mjit_active_units s \<and> mjit_opts s' = mjit_opts s"
proof -
  from assms have a: "s' = s\<lparr>units := units s'\<rparr>" by (simp add: flags_only_def)
  show ?thesis by (subst a, simp)+
qed

lemma flags_only_frame_unit: "flags_only s s' \<Longrightarrow> frame_unit s' f = frame_unit s f"
  using flags_only_fields [of s s'] by (auto simp: frame_unit_def split: option.splits)

lemma flags_only_ec_units: "flags_only s s' \<Longrightarrow> ec_units s' e = ec_units s e"
proof -
  assume "flags_only s s'"
  then have "frame_unit s' = frame_unit s"
    by (intro ext) (rule flags_only_frame_unit)
  then show ?thesis by (simp add: ec_units_def)
qed

lemma flags_only_cont_units: "flags_only s s' \<Longrightarrow> cont_units s' c = cont_units s c"
  using flags_only_fields [of s s'] flags_only_ec_units [of s s']
  by (auto simp: cont_units_def split: option.splits)

lemma mark_frame_unit:
  "mark_frame f s =
     (case frame_unit s f of
        None \<Rightarrow> Some s
      | Some u \<Rightarrow>
          (case units s u of
             None \<Rightarrow> None
           | Some un \<Rightarrow> Some (s\<lparr>units := (units s)(u \<mapsto> un\<lparr>used_code_p := True\<rparr>)\<rparr>)))"
  by (simp add: mark_frame_def frame_unit_def split: option.splits prod.splits)

lemma mark_frame_marks:
  assumes "mark_frame f s = Some s'"
  shows "marks s s' \<and> (\<forall>u. frame_unit s f = Some u \<longrightarrow> unit_marked s' u)"
proof (cases "frame_unit s f")
  case None
  with assms have "s' = s" by (simp add: mark_frame_unit)
  with None show ?thesis by (simp add: marks_refl)
next
  case (Some u)
  with assms obtain un where un: "units s u = Some un"
    and s': "s' = s\<lparr>units := (units s)(u \<mapsto> un\<lparr>used_code_p := True\<rparr>)\<rparr>"
    by (auto simp: mark_frame_unit split: option.splits)
  have us': "units s' = (units s)(u \<mapsto> un\<lparr>used_code_p := True\<rparr>)" by (simp add: s')
  have "s' = s\<lparr>units := units s'\<rparr>" by (simp add: s')
  moreover have "\<forall>v. map_option clear_flag (units s' v) = map_option clear_flag (units s v)"
    using un by (simp add: us' clear_flag_def)
  ultimately have "flags_only s s'" by (simp add: flags_only_def)
  moreover have "\<forall>v. unit_marked s v \<longrightarrow> unit_marked s' v"
    by (simp add: us' unit_marked_def)
  moreover have "unit_marked s' u" by (simp add: us' unit_marked_def)
  ultimately show ?thesis using Some by (simp add: marks_def)
qed

lemma marks_unit_marked: "marks s s' \<Longrightarrow> unit_marked s u \<Longrightarrow> unit_marked s' u"
  by (simp add: marks_def)

lemma marks_flags_only: "marks s s' \<Longrightarrow> flags_only s s'"
  by (simp add: marks_def)

lemma mark_frames_marks:
  "mark_frames fs s = Some s' \<Longrightarrow>
     marks s s' \<and> (\<forall>f \<in> set fs. \<forall>u. frame_unit s f = Some u \<longrightarrow> unit_marked s' u)"
proof (induction fs arbitrary: s)
  case Nil
  then show ?case by (simp add: marks_refl)
next
  case (Cons f fs)
  from Cons.prems obtain s1 where f: "mark_frame f s = Some s1" and r: "mark_frames fs s1 = Some s'"
    by (auto split: option.splits)
  from mark_frame_marks [OF f] have m1: "marks s s1"
    and u1: "\<forall>u. frame_unit s f = Some u \<longrightarrow> unit_marked s1 u" by simp_all
  from Cons.IH [OF r] have m2: "marks s1 s'"
    and u2: "\<forall>g \<in> set fs. \<forall>u. frame_unit s1 g = Some u \<longrightarrow> unit_marked s' u" by simp_all
  have fu: "\<And>g. frame_unit s1 g = frame_unit s g"
    using flags_only_frame_unit [OF marks_flags_only [OF m1]] .
  show ?case
    using marks_trans [OF m1 m2] u1 u2 marks_unit_marked [OF m2] by (auto simp: fu)
qed

lemma set_map_filter_iff: "u \<in> set (List.map_filter g xs) \<longleftrightarrow> (\<exists>x \<in> set xs. g x = Some u)"
  by (induction xs) (auto simp: List.map_filter_simps split: option.splits)

lemma mark_ec_units_marks:
  "mark_ec_units e s = Some s' \<Longrightarrow> marks s s' \<and> (\<forall>u \<in> set (ec_units s e). unit_marked s' u)"
  using mark_frames_marks [of "frames e" s s']
  by (auto simp: mark_ec_units_def ec_units_def marks_refl set_map_filter_iff split: if_splits)

lemma mark_threads_marks:
  "mark_threads es s = Some s' \<Longrightarrow>
     marks s s' \<and> (\<forall>e \<in> set es. \<forall>u \<in> set (ec_units s e). unit_marked s' u)"
proof (induction es arbitrary: s)
  case Nil
  then show ?case by (simp add: marks_refl)
next
  case (Cons e es)
  from Cons.prems obtain s1 where f: "mark_ec_units e s = Some s1" and r: "mark_threads es s1 = Some s'"
    by (auto split: option.splits)
  from mark_ec_units_marks [OF f] have m1: "marks s s1"
    and u1: "\<forall>u \<in> set (ec_units s e). unit_marked s1 u" by simp_all
  from Cons.IH [OF r] have m2: "marks s1 s'"
    and u2: "\<forall>g \<in> set es. \<forall>u \<in> set (ec_units s1 g). unit_marked s' u" by simp_all
  have fu: "\<And>g. ec_units s1 g = ec_units s g"
    using flags_only_ec_units [OF marks_flags_only [OF m1]] .
  show ?case
    using marks_trans [OF m1 m2] u1 u2 marks_unit_marked [OF m2] by (auto simp: fu)
qed

lemma mark_conts_marks:
  assumes run: "mark_conts c s = Some s'"
  shows "marks s s' \<and>
     (\<forall>cs. cont_path (conts s) c cs \<longrightarrow> (\<forall>p \<in> set cs. \<forall>u \<in> set (cont_units s p). unit_marked s' u))"
proof (induction c s s' rule: mark_conts.raw_induct)
  case (1 mark_conts c s s')
  show ?case
  proof (cases c)
    case None
    with "1.hyps" have "s' = s" by simp
    with None show ?thesis by (auto simp: marks_refl elim: cont_path.elims)
  next
    case (Some p)
    with "1.hyps" obtain ct s1 where ct: "conts s p = Some ct"
      and m: "mark_ec_units (ec ct) s = Some s1" and r: "mark_conts (next ct) s1 = Some s'"
      by (auto split: option.splits)
    from mark_ec_units_marks [OF m] have m1: "marks s s1"
      and u1: "\<forall>u \<in> set (ec_units s (ec ct)). unit_marked s1 u" by simp_all
    from "1.IH" [OF r] have m2: "marks s1 s'"
      and u2: "\<forall>cs. cont_path (conts s1) (next ct) cs \<longrightarrow>
                 (\<forall>q \<in> set cs. \<forall>u \<in> set (cont_units s1 q). unit_marked s' u)" by simp_all
    have f1: "flags_only s s1" using m1 by (rule marks_flags_only)
    have cu: "\<And>q. cont_units s1 q = cont_units s q"
      using flags_only_cont_units [OF f1] .
    have cs1: "conts s1 = conts s" using flags_only_fields [OF f1] by simp
    have "\<forall>cs. cont_path (conts s) c cs \<longrightarrow>
            (\<forall>q \<in> set cs. \<forall>u \<in> set (cont_units s q). unit_marked s' u)"
    proof (intro allI impI ballI)
      fix cs q u
      assume path: "cont_path (conts s) c cs" and q: "q \<in> set cs" and u: "u \<in> set (cont_units s q)"
      from path Some ct obtain cs' where cs: "cs = p # cs'"
        and path': "cont_path (conts s) (next ct) cs'"
        by (cases cs) auto
      show "unit_marked s' u"
      proof (cases "q = p")
        case True
        with u ct have "u \<in> set (ec_units s (ec ct))" by (simp add: cont_units_def)
        with u1 have "unit_marked s1 u" by simp
        then show ?thesis using marks_unit_marked [OF m2] by simp
      next
        case False
        with q cs have "q \<in> set cs'" by simp
        with u2 path' u show ?thesis by (simp add: cs1 cu)
      qed
    qed
    with marks_trans [OF m1 m2] show ?thesis by simp
  qed
qed (fact run)

lemma unload_gced_keeps:
  "unload_gced ns s = Some s' \<Longrightarrow>
     s' = s\<lparr>units := units s', mjit_active_units := mjit_active_units s'\<rparr> \<and>
     (\<forall>u un. units s u = Some un \<and> iseq un \<noteq> None \<longrightarrow> units s' u = Some un) \<and>
     (\<forall>n nd un. n \<in> set (chain (mjit_active_units s)) \<and> nodes s n = Some nd \<and>
         units s (unit nd) = Some un \<and> iseq un \<noteq> None \<longrightarrow>
         n \<in> set (chain (mjit_active_units s')))"
proof (induction ns arbitrary: s)
  case Nil
  then show ?case by simp
next
  case (Cons n0 ns)
  from Cons.prems obtain nd0 un0 where n0: "nodes s n0 = Some nd0" "units s (unit nd0) = Some un0"
    by (auto split: option.splits)
  show ?case
  proof (cases "iseq un0 = None")
    case False
    with n0 Cons.prems have "unload_gced ns s = Some s'" by simp
    from Cons.IH [OF this] show ?thesis .
  next
    case True
    define s1 where "s1 = s\<lparr>units := (units s)(unit nd0 := None),
        mjit_active_units := remove_from_list n0 (mjit_active_units s)\<rparr>"
    from True n0 Cons.prems have r: "unload_gced ns s1 = Some s'"
      by (simp add: free_unit_def s1_def)
    from Cons.IH [OF r] have
      a: "s' = s1\<lparr>units := units s', mjit_active_units := mjit_active_units s'\<rparr>" and
      b: "\<forall>u un. units s1 u = Some un \<and> iseq un \<noteq> None \<longrightarrow> units s' u = Some un" and
      c: "\<forall>n nd un. n \<in> set (chain (mjit_active_units s1)) \<and> nodes s1 n = Some nd \<and>
         units s1 (unit nd) = Some un \<and> iseq un \<noteq> None \<longrightarrow>
         n \<in> set (chain (mjit_active_units s'))"
      by blast+
    have a': "s' = s\<lparr>units := units s', mjit_active_units := mjit_active_units s'\<rparr>"
      by (subst a) (simp add: s1_def)
    have b': "\<forall>u un. units s u = Some un \<and> iseq un \<noteq> None \<longrightarrow> units s' u = Some un"
    proof (intro allI impI)
      fix u un assume h: "units s u = Some un \<and> iseq un \<noteq> None"
      with n0 True have "u \<noteq> unit nd0" by auto
      with h have "units s1 u = Some un" by (simp add: s1_def)
      with b h show "units s' u = Some un" by blast
    qed
    have c': "\<forall>n nd un. n \<in> set (chain (mjit_active_units s)) \<and> nodes s n = Some nd \<and>
         units s (unit nd) = Some un \<and> iseq un \<noteq> None \<longrightarrow>
         n \<in> set (chain (mjit_active_units s'))"
    proof (intro allI impI)
      fix n nd un
      assume h: "n \<in> set (chain (mjit_active_units s)) \<and> nodes s n = Some nd \<and>
         units s (unit nd) = Some un \<and> iseq un \<noteq> None"
      with n0 True have ne: "unit nd \<noteq> unit nd0" "n \<noteq> n0" by auto
      from h ne have "n \<in> set (chain (mjit_active_units s1))"
        by (simp add: s1_def remove_from_list_def)
      moreover from h have "nodes s1 n = Some nd" by (simp add: s1_def)
      moreover from h ne have "units s1 (unit nd) = Some un" by (simp add: s1_def)
      ultimately show "n \<in> set (chain (mjit_active_units s'))" using c h by blast
    qed
    from a' b' c' show ?thesis by blast
  qed
qed

lemma clear_used_flags_only: "clear_used ns s = Some s' \<Longrightarrow> flags_only s s'"
proof (induction ns arbitrary: s)
  case Nil
  then show ?case by (simp add: flags_only_refl)
next
  case (Cons n ns)
  from Cons.prems obtain nd un where n: "nodes s n = Some nd" "units s (unit nd) = Some un"
    and r: "clear_used ns (s\<lparr>units := (units s)(unit nd \<mapsto> un\<lparr>used_code_p := False\<rparr>)\<rparr>) = Some s'"
    by (auto split: option.splits if_splits)
  have "flags_only s (s\<lparr>units := (units s)(unit nd \<mapsto> un\<lparr>used_code_p := False\<rparr>)\<rparr>)"
    using n by (simp add: flags_only_def clear_flag_def)
  from flags_only_trans [OF this Cons.IH [OF r]] show ?case .
qed

lemma flags_only_unit:
  "flags_only s s' \<Longrightarrow> units s u = Some un \<Longrightarrow> \<exists>un'. units s' u = Some un'"
proof -
  assume "flags_only s s'" and u: "units s u = Some un"
  then have "map_option clear_flag (units s' u) = map_option clear_flag (units s u)"
    by (simp add: flags_only_def)
  with u show ?thesis by (cases "units s' u") simp_all
qed

lemma ec_units_body: "body s' = body s \<Longrightarrow> ec_units s' e = ec_units s e"
proof -
  assume "body s' = body s"
  then have "frame_unit s' = frame_unit s"
    by (intro ext) (auto simp: frame_unit_def split: option.splits)
  then show ?thesis by (simp add: ec_units_def)
qed

lemma cont_units_body:
  "body s' = body s \<Longrightarrow> conts s' = conts s \<Longrightarrow> cont_units s' c = cont_units s c"
  using ec_units_body [of s' s] by (auto simp: cont_units_def split: option.splits)

lemma unit_marked_in_use:
  "nodes s n = Some nd \<Longrightarrow> unit_marked s (unit nd) \<Longrightarrow> in_use s n"
  by (simp add: in_use_def unit_at_def unit_marked_def)

lemma liveness_scan_marks:
  assumes scan: "liveness_scan s = Some s1"
    and n: "n \<in> set (chain (mjit_active_units s))" "nodes s n = Some nd"
      "units s (unit nd) = Some un" "iseq un \<noteq> None"
    and live: "on_live_stack s (unit nd)"
  shows "n \<in> set (chain (mjit_active_units s1)) \<and> in_use s1 n \<and> nodes s1 n = Some nd"
proof -
  from scan obtain sa sb sc where
    sa: "unload_gced (chain (mjit_active_units s)) s = Some sa" and
    sb: "clear_used (chain (mjit_active_units sa)) sa = Some sb" and
    sc: "mark_threads (living_threads sb) sb = Some sc" and
    sd: "mark_conts (first_cont sc) sc = Some s1"
    by (auto simp: liveness_scan_def split: option.splits)
  from unload_gced_keeps [OF sa] have
    a: "sa = s\<lparr>units := units sa, mjit_active_units := mjit_active_units sa\<rparr>" and
    ac: "n \<in> set (chain (mjit_active_units sa))"
    using n by blast+
  have fa: "body sa = body s" "nodes sa = nodes s" "conts sa = conts s"
    "first_cont sa = first_cont s" "living_threads sa = living_threads s"
    by (subst a, simp)+
  have fb: "flags_only sa sb" using sb by (rule clear_used_flags_only)
  from mark_threads_marks [OF sc] have mc: "marks sb sc"
    and tc: "\<forall>e \<in> set (living_threads sb). \<forall>u \<in> set (ec_units sb e). unit_marked sc u"
    by simp_all
  from mark_conts_marks [OF sd] have md: "marks sc s1"
    and td: "\<forall>cs. cont_path (conts sc) (first_cont sc) cs \<longrightarrow>
               (\<forall>p \<in> set cs. \<forall>u \<in> set (cont_units sc p). unit_marked s1 u)"
    by simp_all
  have fc: "flags_only sb sc" using mc by (rule marks_flags_only)
  have fd: "flags_only sc s1" using md by (rule marks_flags_only)
  have fab: "flags_only sa s1"
    using flags_only_trans [OF fb flags_only_trans [OF fc fd]] .
  have eb: "\<And>e. ec_units sb e = ec_units s e"
    using flags_only_fields [OF fb] fa ec_units_body [of sb s] by simp
  have tb: "living_threads sb = living_threads s"
    using flags_only_fields [OF fb] fa by simp
  have fbc: "flags_only sa sc" using flags_only_trans [OF fb fc] .
  have cc: "conts sc = conts s" "first_cont sc = first_cont s" "body sc = body s"
    using flags_only_fields [OF fbc] fa by simp_all
  have cu: "\<And>p. cont_units sc p = cont_units s p"
    using cont_units_body [of sc s] cc by simp
  have marked: "unit_marked s1 (unit nd)"
    using live unfolding on_live_stack_def
  proof
    assume "\<exists>e \<in> set (living_threads s). unit nd \<in> set (ec_units s e)"
    with tc have "unit_marked sc (unit nd)" by (auto simp: eb tb)
    then show ?thesis using marks_unit_marked [OF md] by simp
  next
    assume "\<exists>cs. cont_path (conts s) (first_cont s) cs \<and>
              (\<exists>c \<in> set cs. unit nd \<in> set (cont_units s c))"
    with td show ?thesis by (auto simp: cc cu)
  qed
  have n1: "nodes s1 n = Some nd"
    using flags_only_fields [OF fab] fa n(2) by simp
  have c1: "n \<in> set (chain (mjit_active_units s1))"
    using flags_only_fields [OF fab] ac by simp
  from c1 unit_marked_in_use [OF n1 marked] n1 show ?thesis by simp
qed

text \<open>
  C2: when \<open>unload_units\<close> returns, every node of the active list whose unit the liveness
  scan has marked as used is still in the active list, still holds its unit, and the
  unit is still allocated and marked: it was not evicted.  The scan marks every unit of
  the active list that has an iseq and is the \<open>jit_unit\<close> of an iseq found in a frame (with
  a \<open>pc\<close>) of a living thread or of a registered continuation.
\<close>

theorem unload_units_keeps_units_in_use:
  assumes "unload_units s = Some s'"
  shows "\<exists>s1. liveness_scan s = Some s1 \<and>
     (\<forall>n \<in> set (chain (mjit_active_units s1)). in_use s1 n \<longrightarrow>
        n \<in> set (chain (mjit_active_units s')) \<and> in_use s' n \<and> nodes s' n = nodes s1 n) \<and>
     (\<forall>n \<in> set (chain (mjit_active_units s)). \<forall>nd un.
        nodes s n = Some nd \<and> units s (unit nd) = Some un \<and> iseq un \<noteq> None \<and>
        on_live_stack s (unit nd) \<longrightarrow>
        n \<in> set (chain (mjit_active_units s1)) \<and> in_use s1 n \<and> nodes s1 n = Some nd)"
proof -
  from assms obtain s1 where scan: "liveness_scan s = Some s1"
    and ev: "evict_loop (length_l (mjit_active_units s1) sdiv 10) s1 = Some s'"
    by (auto simp: unload_units_def split: option.splits)
  have "\<forall>n \<in> set (chain (mjit_active_units s1)). in_use s1 n \<longrightarrow>
        n \<in> set (chain (mjit_active_units s')) \<and> in_use s' n \<and> nodes s' n = nodes s1 n"
    using evict_loop_keeps_in_use [OF ev] by simp
  moreover have "\<forall>n \<in> set (chain (mjit_active_units s)). \<forall>nd un.
        nodes s n = Some nd \<and> units s (unit nd) = Some un \<and> iseq un \<noteq> None \<and>
        on_live_stack s (unit nd) \<longrightarrow>
        n \<in> set (chain (mjit_active_units s1)) \<and> in_use s1 n \<and> nodes s1 n = Some nd"
    using liveness_scan_marks [OF scan] by blast
  ultimately show ?thesis using scan by blast
qed

lemma full_cache_unload_units:
  "\<exists>s'. unload_units full_cache_state = Some s' \<and>
     chain (mjit_active_units s') = [100, 101, 103, 104, 105, 106, 107, 108, 109]"
  by (simp add: unload_units_def liveness_scan_def full_cache_defs mark_conts.simps
      mark_ec_units_def mark_frame_def free_unit_def evict_loop.simps evict_more_def
      find_worst.simps unit_at_def calls_at_def unload_worst_def remove_from_list_def
      signed_divide_int_def)

lemma full_cache_thread_unit: "on_live_stack full_cache_state 200"
  by (simp add: on_live_stack_def ec_units_def frame_unit_def List.map_filter_simps
      full_cache_defs)

lemma full_cache_cont_unit: "on_live_stack full_cache_state 201"
proof -
  have "cont_path (conts full_cache_state) (first_cont full_cache_state) [400]"
    by (simp add: full_cache_defs)
  moreover have "201 \<in> set (cont_units full_cache_state 400)"
    by (simp add: cont_units_def ec_units_def frame_unit_def List.map_filter_simps
        full_cache_defs)
  ultimately show ?thesis unfolding on_live_stack_def by (intro disjI2 exI [of _ "[400]"]) simp
qed

theorem unload_units_keeps_units_in_use_witness:
  "\<exists>s'. unload_units full_cache_state = Some s' \<and>
     on_live_stack full_cache_state 200 \<and> on_live_stack full_cache_state 201 \<and>
     100 \<in> set (chain (mjit_active_units s')) \<and> in_use s' 100 \<and>
     101 \<in> set (chain (mjit_active_units s')) \<and> in_use s' 101 \<and>
     chain (mjit_active_units s') = [100, 101, 103, 104, 105, 106, 107, 108, 109]"
proof -
  from full_cache_unload_units obtain s' where run: "unload_units full_cache_state = Some s'"
    and ch: "chain (mjit_active_units s') = [100, 101, 103, 104, 105, 106, 107, 108, 109]"
    by blast
  from unload_units_keeps_units_in_use [OF run] obtain s1 where
    keep: "\<forall>n \<in> set (chain (mjit_active_units s1)). in_use s1 n \<longrightarrow>
        n \<in> set (chain (mjit_active_units s')) \<and> in_use s' n \<and> nodes s' n = nodes s1 n"
    and mark: "\<forall>n \<in> set (chain (mjit_active_units full_cache_state)). \<forall>nd un.
        nodes full_cache_state n = Some nd \<and> units full_cache_state (unit nd) = Some un \<and>
        iseq un \<noteq> None \<and> on_live_stack full_cache_state (unit nd) \<longrightarrow>
        n \<in> set (chain (mjit_active_units s1)) \<and> in_use s1 n \<and> nodes s1 n = Some nd"
    by blast
  have c: "100 \<in> set (chain (mjit_active_units full_cache_state))"
    "101 \<in> set (chain (mjit_active_units full_cache_state))"
    by (simp_all add: full_cache_defs)
  have n: "nodes full_cache_state 100 = Some \<lparr>unit = 200\<rparr>"
    "nodes full_cache_state 101 = Some \<lparr>unit = 201\<rparr>"
    by (simp_all add: full_cache_defs)
  have u: "\<exists>un. units full_cache_state 200 = Some un \<and> iseq un \<noteq> None"
    "\<exists>un. units full_cache_state 201 = Some un \<and> iseq un \<noteq> None"
    by (simp_all add: full_cache_defs)
  from mark c(1) n(1) u(1) full_cache_thread_unit
  have m0: "100 \<in> set (chain (mjit_active_units s1)) \<and> in_use s1 100" by fastforce
  from mark c(2) n(2) u(2) full_cache_cont_unit
  have m1: "101 \<in> set (chain (mjit_active_units s1)) \<and> in_use s1 101" by fastforce
  from keep m0 m1 run ch full_cache_thread_unit full_cache_cont_unit show ?thesis by blast
qed

section \<open>The liveness scan leaves a loaded active list\<close>

lemma clear_flag_eq:
  "clear_flag a = clear_flag b \<Longrightarrow> iseq a = iseq b \<and> handle a = handle b \<and> id_u a = id_u b"
  by (cases a, cases b) (simp add: clear_flag_def)

lemma flags_only_loaded: "flags_only s s' \<Longrightarrow> loaded s' n = loaded s n"
proof -
  assume f: "flags_only s s'"
  then have n: "nodes s' = nodes s" using flags_only_fields by simp
  show ?thesis
  proof (cases "nodes s n")
    case None
    then show ?thesis by (simp add: loaded_def unit_at_def n)
  next
    case (Some nd)
    from f have "map_option clear_flag (units s' (unit nd)) = map_option clear_flag (units s (unit nd))"
      by (simp add: flags_only_def)
    then show ?thesis
      by (cases "units s' (unit nd)"; cases "units s (unit nd)")
        (auto simp: loaded_def unit_at_def n Some dest: clear_flag_eq)
  qed
qed

lemma clear_used_loaded: "clear_used ns s = Some s' \<Longrightarrow> \<forall>n \<in> set ns. loaded s n"
proof (induction ns arbitrary: s)
  case Nil
  then show ?case by simp
next
  case (Cons n ns)
  from Cons.prems obtain nd un where n: "nodes s n = Some nd" "units s (unit nd) = Some un"
    "iseq un \<noteq> None" "handle un \<noteq> None"
    and r: "clear_used ns (s\<lparr>units := (units s)(unit nd \<mapsto> un\<lparr>used_code_p := False\<rparr>)\<rparr>) = Some s'"
    by (auto split: option.splits if_splits)
  let ?s1 = "s\<lparr>units := (units s)(unit nd \<mapsto> un\<lparr>used_code_p := False\<rparr>)\<rparr>"
  have f: "flags_only s ?s1"
    using n by (simp add: flags_only_def clear_flag_def)
  from Cons.IH [OF r] have "\<forall>m \<in> set ns. loaded ?s1 m" .
  then have "\<forall>m \<in> set ns. loaded s m" using flags_only_loaded [OF f] by simp
  moreover have "loaded s n" using n by (simp add: loaded_def unit_at_def)
  ultimately show ?case by simp
qed

lemma liveness_scan_active_loaded:
  assumes "liveness_scan s = Some s1"
  shows "active_loaded s1"
proof -
  from assms obtain sa sb sc where
    sb: "clear_used (chain (mjit_active_units sa)) sa = Some sb" and
    sc: "mark_threads (living_threads sb) sb = Some sc" and
    sd: "mark_conts (first_cont sc) sc = Some s1"
    by (auto simp: liveness_scan_def split: option.splits)
  have b: "flags_only sa sb" using sb by (rule clear_used_flags_only)
  have c: "flags_only sb sc" using mark_threads_marks [OF sc] by (simp add: marks_def)
  have d: "flags_only sc s1" using mark_conts_marks [OF sd] by (simp add: marks_def)
  have f: "flags_only sa s1" using flags_only_trans [OF b flags_only_trans [OF c d]] .
  have "mjit_active_units s1 = mjit_active_units sa" using flags_only_fields [OF f] by simp
  with clear_used_loaded [OF sb] flags_only_loaded [OF f] show ?thesis
    by (simp add: active_loaded_def)
qed

section \<open>What eviction leaves unchanged\<close>

lemma evicts_refl: "evicts H s s"
  by (simp add: evicts_def)

lemma evicts_fields:
  assumes "evicts H s s'"
  shows "nodes s' = nodes s \<and> mjit_unit_queue s' = mjit_unit_queue s \<and>
     mjit_compact_units s' = mjit_compact_units s \<and>
     mjit_current_unit_num s' = mjit_current_unit_num s \<and>
     mjit_enabled s' = mjit_enabled s \<and> mjit_pch_status s' = mjit_pch_status s \<and>
     mjit_opts s' = mjit_opts s \<and> conts s' = conts s \<and> first_cont s' = first_cont s \<and>
     living_threads s' = living_threads s \<and> mjit_in_gc s' = mjit_in_gc s \<and>
     mjit_in_jit s' = mjit_in_jit s \<and>
     mjit_valid_class_serials s' = mjit_valid_class_serials s"
proof -
  from assms have a:
    "s' = s\<lparr>units := units s', body := body s', mjit_active_units := mjit_active_units s'\<rparr>"
    by (simp add: evicts_def)
  show ?thesis by (subst a, simp)+
qed

lemma evicts_trans:
  assumes "evicts H s s1" and "evicts H s1 s2"
  shows "evicts H s s2"
proof -
  from assms(1) have a:
    "s1 = s\<lparr>units := units s1, body := body s1, mjit_active_units := mjit_active_units s1\<rparr>"
    by (simp add: evicts_def)
  from assms(2) have b:
    "s2 = s1\<lparr>units := units s2, body := body s2, mjit_active_units := mjit_active_units s2\<rparr>"
    by (simp add: evicts_def)
  have "s2 = s\<lparr>units := units s1, body := body s1, mjit_active_units := mjit_active_units s1\<rparr>
      \<lparr>units := units s2, body := body s2, mjit_active_units := mjit_active_units s2\<rparr>"
    by (subst b, subst a) simp
  then have r: "s2 = s\<lparr>units := units s2, body := body s2,
      mjit_active_units := mjit_active_units s2\<rparr>"
    by simp
  have j: "\<forall>i. jit_func (body s2 i) = jit_func (body s i)"
    using assms by (simp add: evicts_def)
  have c: "set (chain (mjit_active_units s2)) \<subseteq> set (chain (mjit_active_units s))"
    using assms by (auto simp: evicts_def)
  have n1: "nodes s1 = nodes s" using evicts_fields [OF assms(1)] by simp
  have "\<forall>u. \<not> held H s u \<longrightarrow>
          map_option clear_flag (units s2 u) = map_option clear_flag (units s u)"
  proof (intro allI impI)
    fix u assume nh: "\<not> held H s u"
    then have "\<not> held H s1 u" by (simp add: held_def n1)
    with assms(2) have "map_option clear_flag (units s2 u) = map_option clear_flag (units s1 u)"
      by (simp add: evicts_def)
    also from nh assms(1) have "\<dots> = map_option clear_flag (units s u)"
      by (simp add: evicts_def)
    finally show "map_option clear_flag (units s2 u) = map_option clear_flag (units s u)" .
  qed
  with r j c show ?thesis unfolding evicts_def by blast
qed

lemma flags_only_evicts:
  assumes "flags_only s s'"
  shows "evicts H s s'"
proof -
  from assms have a: "s' = s\<lparr>units := units s'\<rparr>"
    and f: "\<forall>u. map_option clear_flag (units s' u) = map_option clear_flag (units s u)"
    by (simp_all add: flags_only_def)
  have b: "body s' = body s" "mjit_active_units s' = mjit_active_units s"
    using flags_only_fields [OF assms] by simp_all
  have "s' = s\<lparr>units := units s', body := body s', mjit_active_units := mjit_active_units s'\<rparr>"
    unfolding b by (subst a) simp
  with f b show ?thesis by (simp add: evicts_def)
qed

text \<open>Freeing the unit of a node and unlinking the node.\<close>

lemma free_unit_evicts:
  assumes n: "nodes s n = Some nd" and f: "free_unit (unit nd) s = Some s1" and h: "n \<in> H"
  shows "evicts H s (s1\<lparr>mjit_active_units := remove_from_list n (mjit_active_units s1)\<rparr>)"
proof -
  from f obtain un where un: "units s (unit nd) = Some un"
    and s1: "s1 = s\<lparr>units := (units s)(unit nd := None),
                body := (case iseq un of None \<Rightarrow> body s
                         | Some i \<Rightarrow> (body s)(i := (body s i)\<lparr>jit_unit := None\<rparr>))\<rparr>"
    by (auto simp: free_unit_def split: option.splits)
  let ?s2 = "s1\<lparr>mjit_active_units := remove_from_list n (mjit_active_units s1)\<rparr>"
  have r: "?s2 = s\<lparr>units := units ?s2, body := body ?s2,
      mjit_active_units := mjit_active_units ?s2\<rparr>"
    by (simp add: s1)
  have j: "\<forall>i. jit_func (body ?s2 i) = jit_func (body s i)"
    by (simp add: s1 split: option.splits)
  have c: "set (chain (mjit_active_units ?s2)) \<subseteq> set (chain (mjit_active_units s))"
    using set_remove1_subset [of n "chain (mjit_active_units s)"]
    by (simp add: s1 remove_from_list_def)
  have "\<forall>u. \<not> held H s u \<longrightarrow>
          map_option clear_flag (units ?s2 u) = map_option clear_flag (units s u)"
  proof (intro allI impI)
    fix u assume "\<not> held H s u"
    with n h have "u \<noteq> unit nd" by (auto simp: held_def)
    then show "map_option clear_flag (units ?s2 u) = map_option clear_flag (units s u)"
      by (simp add: s1)
  qed
  with r j c show ?thesis unfolding evicts_def by blast
qed

lemma unload_gced_evicts:
  "unload_gced ns s = Some s' \<Longrightarrow> set ns \<subseteq> H \<Longrightarrow> evicts H s s'"
proof (induction ns arbitrary: s)
  case Nil
  then show ?case by (simp add: evicts_refl)
next
  case (Cons n ns)
  from Cons.prems(1) obtain nd un where n: "nodes s n = Some nd" "units s (unit nd) = Some un"
    by (auto split: option.splits)
  from Cons.prems(2) have h: "n \<in> H" "set ns \<subseteq> H" by simp_all
  show ?case
  proof (cases "iseq un = None")
    case False
    with n Cons.prems(1) have "unload_gced ns s = Some s'" by simp
    from Cons.IH [OF this h(2)] show ?thesis .
  next
    case True
    with n Cons.prems(1) obtain s1 where f: "free_unit (unit nd) s = Some s1"
      and r: "unload_gced ns (s1\<lparr>mjit_active_units := remove_from_list n (mjit_active_units s1)\<rparr>)
              = Some s'"
      by (auto split: option.splits)
    from evicts_trans [OF free_unit_evicts [OF n(1) f h(1)] Cons.IH [OF r h(2)]]
    show ?thesis .
  qed
qed

lemma find_worst_member:
  "find_worst s ns worst = Some (Some w) \<Longrightarrow> worst = Some w \<or> w \<in> set ns"
proof (induction ns arbitrary: worst)
  case Nil
  then show ?case by simp
next
  case (Cons n ns)
  from Cons.prems have
    "find_worst s ns worst = Some (Some w) \<or> find_worst s ns (Some n) = Some (Some w)"
    by (auto simp: find_worst.simps split: option.splits if_splits)
  then show ?case
  proof
    assume "find_worst s ns worst = Some (Some w)"
    from Cons.IH [OF this] show ?thesis by auto
  next
    assume "find_worst s ns (Some n) = Some (Some w)"
    from Cons.IH [OF this] show ?thesis by auto
  qed
qed

lemma unload_worst_evicts:
  assumes "unload_worst w s = Some s1" and "w \<in> H"
  shows "evicts H s s1"
proof -
  from assms(1) obtain nd s0 where n: "nodes s w = Some nd"
    and f: "free_unit (unit nd) s = Some s0"
    and s1: "s1 = s0\<lparr>mjit_active_units := remove_from_list w (mjit_active_units s0)\<rparr>"
    by (auto simp: unload_worst_def split: option.splits if_splits)
  from free_unit_evicts [OF n f assms(2)] show ?thesis by (simp add: s1)
qed

lemma evict_loop_evicts:
  "evict_loop delete_num s = Some s' \<Longrightarrow> set (chain (mjit_active_units s)) \<subseteq> H \<Longrightarrow>
     evicts H s s'"
proof (induction delete_num s rule: evict_loop.induct)
  case (1 delete_num s)
  show ?case
  proof (cases "evict_more delete_num s")
    case False
    with "1.prems" show ?thesis by (simp add: evict_loop.simps evicts_refl)
  next
    case True
    show ?thesis
    proof (cases "find_worst s (chain (mjit_active_units s)) None")
      case None
      with True "1.prems"(1) show ?thesis by (simp add: evict_loop.simps)
    next
      case (Some r)
      note fr = this
      show ?thesis
      proof (cases r)
        case None
        with fr True "1.prems" show ?thesis by (simp add: evict_loop.simps evicts_refl)
      next
        case (Some w)
        with fr have fw: "find_worst s (chain (mjit_active_units s)) None = Some (Some w)"
          by simp
        from find_worst_member [OF fw] "1.prems"(2) have wh: "w \<in> H" by auto
        from fw True "1.prems"(1) obtain s1 where
          u: "unload_worst w s = Some s1" and e: "evict_loop delete_num s1 = Some s'"
          by (auto simp: evict_loop.simps split: option.splits)
        have e1: "evicts H s s1" using unload_worst_evicts [OF u wh] .
        then have "set (chain (mjit_active_units s1)) \<subseteq> H"
          using "1.prems"(2) by (auto simp: evicts_def)
        from evicts_trans [OF e1 "1.IH" [OF True fr Some u e this]] show ?thesis .
      qed
    qed
  qed
qed

lemma liveness_scan_evicts:
  assumes "liveness_scan s = Some s1"
  shows "evicts (set (chain (mjit_active_units s))) s s1"
proof -
  let ?H = "set (chain (mjit_active_units s))"
  from assms obtain sa sb sc where
    sa: "unload_gced (chain (mjit_active_units s)) s = Some sa" and
    sb: "clear_used (chain (mjit_active_units sa)) sa = Some sb" and
    sc: "mark_threads (living_threads sb) sb = Some sc" and
    sd: "mark_conts (first_cont sc) sc = Some s1"
    by (auto simp: liveness_scan_def split: option.splits)
  have a: "evicts ?H s sa" using unload_gced_evicts [OF sa] by simp
  have b: "flags_only sa sb" using sb by (rule clear_used_flags_only)
  have c: "flags_only sb sc" using mark_threads_marks [OF sc] by (simp add: marks_def)
  have d: "flags_only sc s1" using mark_conts_marks [OF sd] by (simp add: marks_def)
  from flags_only_evicts [OF flags_only_trans [OF b flags_only_trans [OF c d]]]
  have "evicts ?H sa s1" .
  from evicts_trans [OF a this] show ?thesis .
qed

lemma unload_units_evicts:
  assumes "unload_units s = Some s'"
  shows "evicts (set (chain (mjit_active_units s))) s s'"
proof -
  from assms obtain s1 where scan: "liveness_scan s = Some s1"
    and ev: "evict_loop (length_l (mjit_active_units s1) sdiv 10) s1 = Some s'"
    by (auto simp: unload_units_def split: option.splits)
  have a: "evicts (set (chain (mjit_active_units s))) s s1"
    using scan by (rule liveness_scan_evicts)
  then have "set (chain (mjit_active_units s1)) \<subseteq> set (chain (mjit_active_units s))"
    by (simp add: evicts_def)
  from evicts_trans [OF a evict_loop_evicts [OF ev this]] show ?thesis .
qed

section \<open>Submission\<close>

lemma add_iseq_once:
  assumes en: "mjit_enabled s" "mjit_pch_status s \<noteq> PCH_FAILED"
    and run: "mjit_add_iseq_to_process i (Some a) na s = Some s'"
    and fresh: "\<not> held (set (chain (mjit_active_units s))) s a"
      "na \<notin> set (chain (mjit_active_units s))"
  shows "mjit_enabled s' \<and> mjit_pch_status s' \<noteq> PCH_FAILED \<and>
     mjit_unit_queue s' = add_to_list na (mjit_unit_queue s) \<and>
     nodes s' = (nodes s)(na \<mapsto> \<lparr>unit = a\<rparr>) \<and>
     mjit_current_unit_num s' = mjit_current_unit_num s + 1 \<and>
     map_option clear_flag (units s' a) = Some (new_unit (mjit_current_unit_num s) i) \<and>
     (\<forall>u. u \<noteq> a \<longrightarrow> \<not> held (set (chain (mjit_active_units s))) s u \<longrightarrow>
        map_option clear_flag (units s' u) = map_option clear_flag (units s u)) \<and>
     set (chain (mjit_active_units s')) \<subseteq> set (chain (mjit_active_units s)) \<and>
     jit_func (body s' i) = NOT_READY_JIT_ISEQ_FUNC"
proof -
  let ?H = "set (chain (mjit_active_units s))"
  define s4 where "s4 =
    s\<lparr>units := (units s)(a \<mapsto> new_unit (mjit_current_unit_num s) i),
      mjit_current_unit_num := mjit_current_unit_num s + 1,
      body := (body s)(i := (body s i)\<lparr>jit_func := NOT_READY_JIT_ISEQ_FUNC, jit_unit := Some a\<rparr>),
      nodes := (nodes s)(na \<mapsto> \<lparr>unit = a\<rparr>),
      mjit_unit_queue := add_to_list na (mjit_unit_queue s)\<rparr>"
  have run4: "(if length_l (mjit_active_units s4) \<ge> sint (max_cache_size (mjit_opts s4))
               then unload_units s4 else Some s4) = Some s'"
    using run en
    by (simp add: mjit_add_iseq_to_process_def create_unit_def create_list_node_def Let_def
        s4_def new_unit_def cong: if_cong)
  have c4: "chain (mjit_active_units s4) = chain (mjit_active_units s)"
    by (simp add: s4_def)
  have ev: "evicts ?H s4 s'"
  proof (cases "length_l (mjit_active_units s4) \<ge> sint (max_cache_size (mjit_opts s4))")
    case True
    with run4 have "unload_units s4 = Some s'" by simp
    from unload_units_evicts [OF this] show ?thesis by (simp add: c4)
  next
    case False
    with run4 show ?thesis by (simp add: evicts_refl)
  qed
  note f = evicts_fields [OF ev]
  have h4: "\<And>u. held ?H s4 u \<Longrightarrow> held ?H s u"
    using fresh(2) by (auto simp: held_def s4_def split: if_splits)
  have k: "\<And>u. \<not> held ?H s u \<Longrightarrow>
      map_option clear_flag (units s' u) = map_option clear_flag (units s4 u)"
    using ev h4 unfolding evicts_def by blast
  have "mjit_enabled s'" "mjit_pch_status s' \<noteq> PCH_FAILED"
    "mjit_unit_queue s' = add_to_list na (mjit_unit_queue s)"
    "nodes s' = (nodes s)(na \<mapsto> \<lparr>unit = a\<rparr>)"
    "mjit_current_unit_num s' = mjit_current_unit_num s + 1"
    using f en by (simp_all add: s4_def)
  moreover have "map_option clear_flag (units s' a) = Some (new_unit (mjit_current_unit_num s) i)"
    using k [OF fresh(1)] by (simp add: s4_def clear_flag_def new_unit_def)
  moreover have "\<forall>u. u \<noteq> a \<longrightarrow> \<not> held ?H s u \<longrightarrow>
        map_option clear_flag (units s' u) = map_option clear_flag (units s u)"
    using k by (simp add: s4_def)
  moreover have "set (chain (mjit_active_units s')) \<subseteq> ?H"
    using ev by (simp add: evicts_def c4)
  moreover have "jit_func (body s' i) = NOT_READY_JIT_ISEQ_FUNC"
    using ev by (simp add: evicts_def s4_def)
  ultimately show ?thesis by blast
qed

lemmas running_defs = running_state_def initial_state_def normalize_options_def
  zero_options_def DEFAULT_CACHE_SIZE_def DEFAULT_MIN_CALLS_TO_ADD_def MIN_CACHE_SIZE_def
  init_list_def zero_body_def

lemma add_iseq_returns:
  assumes "length_l (mjit_active_units s) < sint (max_cache_size (mjit_opts s))"
  shows "\<exists>s'. mjit_add_iseq_to_process i ua na s = Some s' \<and>
     mjit_active_units s' = mjit_active_units s \<and> mjit_opts s' = mjit_opts s"
  using assms
  by (cases ua)
     (auto simp: mjit_add_iseq_to_process_def create_unit_def create_list_node_def Let_def
        split: option.splits)

text \<open>
  The unit counter at \<open>INT_MAX\<close>: the new unit gets the id \<open>INT_MAX\<close> and the counter
  wraps to \<open>INT_MIN\<close>.
\<close>

lemma create_unit_wraps:
  "mjit_current_unit_num s = 2147483647 \<Longrightarrow>
   map_option (\<lambda>un. sint (id_u un)) (units (create_unit i (Some a) s) a) = Some 2147483647 \<and>
   sint (mjit_current_unit_num (create_unit i (Some a) s)) = - 2147483648"
  by (simp add: create_unit_def)

text \<open>
  C3, as stated: calling \<open>mjit_add_iseq_to_process\<close> twice on the same iseq (subsystem
  enabled, PCH not failed) creates at most one unit.  The code has no test of a unit
  already attached: \<open>create_unit\<close> allocates on every call.  After two calls on iseq 7
  two units of that iseq exist, with ids 0 and 1, and both are queued.
\<close>

theorem add_iseq_to_process_twice_counterexample:
  "mjit_enabled running_state \<and> mjit_pch_status running_state \<noteq> PCH_FAILED \<and>
   (case submit_twice of
      None \<Rightarrow> False
    | Some s2 \<Rightarrow>
        units s2 0 = Some (new_unit 0 7) \<and> units s2 1 = Some (new_unit 1 7) \<and>
        mjit_current_unit_num s2 = 2 \<and> chain (mjit_unit_queue s2) = [0, 1])"
  by (simp add: submit_twice_def mjit_add_iseq_to_process_def create_unit_def
      create_list_node_def add_to_list_def Let_def running_defs new_unit_def)

text \<open>
  C3, amended: each call of \<open>mjit_add_iseq_to_process\<close> (subsystem enabled, PCH not
  failed, allocation successful) creates a new unit for the iseq, whether or not the iseq
  has one already.  Let the allocator answer two calls on the same iseq with distinct
  unit addresses and distinct node addresses that no active node uses or refers to.
  Both calls return when the active list is shorter than \<open>max_cache_size\<close>
  (\<open>unload_units\<close> is not run then).  Whenever both calls return, the queue has grown by
  the two new nodes in order, and both units are allocated, of that iseq, with the ids
  \<open>c\<close> and \<open>c + 1\<close>, where \<open>c\<close> was the unit counter, which is now \<open>c + 2\<close>: all
  three in 32-bit arithmetic, which wraps at \<open>INT_MAX\<close>.
\<close>

theorem add_iseq_to_process_twice:
  assumes en: "mjit_enabled s" "mjit_pch_status s \<noteq> PCH_FAILED"
    and fresh: "a1 \<noteq> a2" "n1 \<noteq> n2"
      "\<not> held (set (chain (mjit_active_units s))) s a1"
      "\<not> held (set (chain (mjit_active_units s))) s a2"
      "n1 \<notin> set (chain (mjit_active_units s))" "n2 \<notin> set (chain (mjit_active_units s))"
  shows "(length_l (mjit_active_units s) < sint (max_cache_size (mjit_opts s)) \<longrightarrow>
       (\<exists>s1 s2. mjit_add_iseq_to_process i (Some a1) n1 s = Some s1 \<and>
          mjit_add_iseq_to_process i (Some a2) n2 s1 = Some s2)) \<and>
     (\<forall>s1 s2. mjit_add_iseq_to_process i (Some a1) n1 s = Some s1 \<longrightarrow>
        mjit_add_iseq_to_process i (Some a2) n2 s1 = Some s2 \<longrightarrow>
        chain (mjit_unit_queue s2) = chain (mjit_unit_queue s) @ [n1, n2] \<and>
        length_l (mjit_unit_queue s2) = length_l (mjit_unit_queue s) + 2 \<and>
        nodes s2 n1 = Some \<lparr>unit = a1\<rparr> \<and> nodes s2 n2 = Some \<lparr>unit = a2\<rparr> \<and>
        mjit_current_unit_num s2 = mjit_current_unit_num s + 2 \<and>
        map_option clear_flag (units s2 a1) = Some (new_unit (mjit_current_unit_num s) i) \<and>
        map_option clear_flag (units s2 a2) = Some (new_unit (mjit_current_unit_num s + 1) i))"
proof (intro conjI impI allI)
  assume short: "length_l (mjit_active_units s) < sint (max_cache_size (mjit_opts s))"
  from add_iseq_returns [OF short, of i "Some a1" n1] obtain s1 where
    r1: "mjit_add_iseq_to_process i (Some a1) n1 s = Some s1" and
    k1: "mjit_active_units s1 = mjit_active_units s" "mjit_opts s1 = mjit_opts s"
    by blast
  from short k1 have "length_l (mjit_active_units s1) < sint (max_cache_size (mjit_opts s1))"
    by simp
  from add_iseq_returns [OF this, of i "Some a2" n2] r1
  show "\<exists>s1 s2. mjit_add_iseq_to_process i (Some a1) n1 s = Some s1 \<and>
          mjit_add_iseq_to_process i (Some a2) n2 s1 = Some s2"
    by blast
next
  fix s1 s2
  assume run1: "mjit_add_iseq_to_process i (Some a1) n1 s = Some s1"
    and run2: "mjit_add_iseq_to_process i (Some a2) n2 s1 = Some s2"
  let ?H = "set (chain (mjit_active_units s))"
  note o1 = add_iseq_once [OF en run1 fresh(3,5)]
  from o1 have e1: "mjit_enabled s1" "mjit_pch_status s1 \<noteq> PCH_FAILED"
    and q1: "mjit_unit_queue s1 = add_to_list n1 (mjit_unit_queue s)"
    and nd1: "nodes s1 = (nodes s)(n1 \<mapsto> \<lparr>unit = a1\<rparr>)"
    and c1: "mjit_current_unit_num s1 = mjit_current_unit_num s + 1"
    and u1: "map_option clear_flag (units s1 a1) = Some (new_unit (mjit_current_unit_num s) i)"
    and sub: "set (chain (mjit_active_units s1)) \<subseteq> ?H"
    by blast+
  have h1: "\<And>u. held (set (chain (mjit_active_units s1))) s1 u \<Longrightarrow> held ?H s u"
    using sub fresh(5) by (fastforce simp: held_def nd1 split: if_splits)
  have f2: "\<not> held (set (chain (mjit_active_units s1))) s1 a2"
    "\<not> held (set (chain (mjit_active_units s1))) s1 a1"
    "n2 \<notin> set (chain (mjit_active_units s1))"
    using h1 fresh sub by blast+
  note o2 = add_iseq_once [OF e1 run2 f2(1,3)]
  from o2 have q2: "mjit_unit_queue s2 = add_to_list n2 (mjit_unit_queue s1)"
    and nd2: "nodes s2 = (nodes s1)(n2 \<mapsto> \<lparr>unit = a2\<rparr>)"
    and c2: "mjit_current_unit_num s2 = mjit_current_unit_num s1 + 1"
    and u2: "map_option clear_flag (units s2 a2) = Some (new_unit (mjit_current_unit_num s1) i)"
    and k2: "\<forall>u. u \<noteq> a2 \<longrightarrow> \<not> held (set (chain (mjit_active_units s1))) s1 u \<longrightarrow>
        map_option clear_flag (units s2 u) = map_option clear_flag (units s1 u)"
    by blast+
  have u12: "map_option clear_flag (units s2 a1) = Some (new_unit (mjit_current_unit_num s) i)"
    using k2 fresh(1) f2(2) u1 by simp
  show "chain (mjit_unit_queue s2) = chain (mjit_unit_queue s) @ [n1, n2]"
    using q1 q2 by (simp add: add_to_list_def)
  show "length_l (mjit_unit_queue s2) = length_l (mjit_unit_queue s) + 2"
    using q1 q2 by (simp add: add_to_list_def)
  show "nodes s2 n1 = Some \<lparr>unit = a1\<rparr>" using nd1 nd2 fresh(2) by simp
  show "nodes s2 n2 = Some \<lparr>unit = a2\<rparr>" using nd2 by simp
  show "mjit_current_unit_num s2 = mjit_current_unit_num s + 2" using c1 c2 by simp
  show "map_option clear_flag (units s2 a1) = Some (new_unit (mjit_current_unit_num s) i)"
    by (fact u12)
  show "map_option clear_flag (units s2 a2) = Some (new_unit (mjit_current_unit_num s + 1) i)"
    using u2 c1 by simp
qed

theorem add_iseq_to_process_twice_witness:
  "mjit_enabled running_state \<and> mjit_pch_status running_state \<noteq> PCH_FAILED \<and>
   \<not> held (set (chain (mjit_active_units running_state))) running_state 0 \<and>
   \<not> held (set (chain (mjit_active_units running_state))) running_state 1 \<and>
   length_l (mjit_active_units running_state) <
     sint (max_cache_size (mjit_opts running_state)) \<and>
   (\<exists>s1 s2. mjit_add_iseq_to_process 7 (Some 0) 0 running_state = Some s1 \<and>
      mjit_add_iseq_to_process 7 (Some 1) 1 s1 = Some s2 \<and>
      chain (mjit_unit_queue s2) = [0, 1] \<and> length_l (mjit_unit_queue s2) = 2 \<and>
      nodes s2 0 = Some \<lparr>unit = 0\<rparr> \<and> nodes s2 1 = Some \<lparr>unit = 1\<rparr> \<and>
      mjit_current_unit_num s2 = 2 \<and>
      map_option clear_flag (units s2 0) = Some (new_unit 0 7) \<and>
      map_option clear_flag (units s2 1) = Some (new_unit 1 7))"
proof -
  have en: "mjit_enabled running_state" "mjit_pch_status running_state \<noteq> PCH_FAILED"
    by (simp_all add: running_defs)
  have h: "\<not> held (set (chain (mjit_active_units running_state))) running_state 0"
    "\<not> held (set (chain (mjit_active_units running_state))) running_state 1"
    "0 \<notin> set (chain (mjit_active_units running_state))"
    "1 \<notin> set (chain (mjit_active_units running_state))"
    by (simp_all add: held_def running_defs)
  have short: "length_l (mjit_active_units running_state) <
      sint (max_cache_size (mjit_opts running_state))"
    by (simp add: running_defs)
  have q: "chain (mjit_unit_queue running_state) = []" "length_l (mjit_unit_queue running_state) = 0"
    "mjit_current_unit_num running_state = 0"
    by (simp_all add: running_defs)
  note t = add_iseq_to_process_twice [OF en _ _ h, where i = 7]
  from t short obtain s1 s2 where
    r1: "mjit_add_iseq_to_process 7 (Some 0) 0 running_state = Some s1" and
    r2: "mjit_add_iseq_to_process 7 (Some 1) 1 s1 = Some s2"
    by auto
  from t r1 r2 q en h(1,2) short show ?thesis by auto
qed

section \<open>The jit_func cell\<close>





lemma create_unit_active:
  "mjit_active_units (create_unit j ua s) = mjit_active_units s \<and>
   mjit_opts (create_unit j ua s) = mjit_opts s"
  by (simp add: create_unit_def split: option.splits)





lemma cell_step_body: "body s' = body s \<Longrightarrow> cell_step (jit_func (body s i)) (jit_func (body s' i))"
  by (simp add: cell_step_def)





































section \<open>Shutdown\<close>

lemma free_list_frees:
  "free_list ns s = Some s' \<Longrightarrow>
     s' = s\<lparr>units := units s', body := body s', nodes := nodes s'\<rparr> \<and>
     (\<forall>n. nodes s n = None \<longrightarrow> nodes s' n = None) \<and>
     (\<forall>u. units s u = None \<longrightarrow> units s' u = None) \<and>
     (\<forall>n \<in> set ns. nodes s' n = None \<and>
        (\<exists>nd. nodes s n = Some nd \<and> units s' (unit nd) = None))"
proof (induction ns arbitrary: s)
  case Nil
  then show ?case by simp
next
  case (Cons n ns)
  from Cons.prems obtain nd un where n: "nodes s n = Some nd" and un: "units s (unit nd) = Some un"
    by (auto simp: free_unit_def split: option.splits)
  define s1 where "s1 = s\<lparr>units := (units s)(unit nd := None),
      body := (case iseq un of None \<Rightarrow> body s
               | Some i \<Rightarrow> (body s)(i := (body s i)\<lparr>jit_unit := None\<rparr>)),
      nodes := (nodes s)(n := None)\<rparr>"
  from Cons.prems n un have r: "free_list ns s1 = Some s'"
    by (simp add: free_unit_def s1_def)
  from Cons.IH [OF r] have
    a: "s' = s1\<lparr>units := units s', body := body s', nodes := nodes s'\<rparr>" and
    b: "\<forall>m. nodes s1 m = None \<longrightarrow> nodes s' m = None" and
    c: "\<forall>u. units s1 u = None \<longrightarrow> units s' u = None" and
    d: "\<forall>m \<in> set ns. nodes s' m = None \<and>
          (\<exists>ndm. nodes s1 m = Some ndm \<and> units s' (unit ndm) = None)"
    by blast+
  have a': "s' = s\<lparr>units := units s', body := body s', nodes := nodes s'\<rparr>"
    by (subst a) (simp add: s1_def)
  have b': "\<forall>m. nodes s m = None \<longrightarrow> nodes s' m = None"
    using b by (simp add: s1_def)
  have c': "\<forall>u. units s u = None \<longrightarrow> units s' u = None"
    using c by (simp add: s1_def)
  have n': "nodes s' n = None" using b by (simp add: s1_def)
  have u': "units s' (unit nd) = None" using c by (simp add: s1_def)
  have d': "\<forall>m \<in> set (n # ns). nodes s' m = None \<and>
          (\<exists>ndm. nodes s m = Some ndm \<and> units s' (unit ndm) = None)"
  proof
    fix m assume m: "m \<in> set (n # ns)"
    show "nodes s' m = None \<and> (\<exists>ndm. nodes s m = Some ndm \<and> units s' (unit ndm) = None)"
    proof (cases "m = n")
      case True
      with n n' u' show ?thesis by simp
    next
      case False
      with m have "m \<in> set ns" by simp
      with d have "nodes s' m = None \<and>
          (\<exists>ndm. nodes s1 m = Some ndm \<and> units s' (unit ndm) = None)" by blast
      moreover have "nodes s1 m = nodes s m" using False by (simp add: s1_def)
      ultimately show ?thesis by simp
    qed
  qed
  from a' b' c' d' show ?case by blast
qed

lemma free_list_nodes_kept:
  "free_list ns s = Some s' \<Longrightarrow> nodes s' n = Some nd \<Longrightarrow> nodes s n = Some nd"
proof (induction ns arbitrary: s)
  case Nil
  then show ?case by simp
next
  case (Cons m ns)
  from Cons.prems(1) obtain ndm s1 where m: "nodes s m = Some ndm"
    and f: "free_unit (unit ndm) s = Some s1"
    and r: "free_list ns (s1\<lparr>nodes := (nodes s1)(m := None)\<rparr>) = Some s'"
    by (auto split: option.splits)
  from f have "nodes s1 = nodes s" by (auto simp: free_unit_def split: option.splits)
  with Cons.IH [OF r Cons.prems(2)] show ?case by (simp split: if_splits)
qed

lemma cont_path_unique: "cont_path h c cs \<Longrightarrow> cont_path h c cs' \<Longrightarrow> cs = cs'"
proof (induction cs arbitrary: c cs')
  case Nil
  then show ?case by (cases cs') simp_all
next
  case (Cons p ps)
  from Cons.prems(1) obtain ct where c: "c = Some p" and ct: "h p = Some ct"
    and r: "cont_path h (next ct) ps"
    by (auto split: option.splits)
  from Cons.prems(2) c obtain ps' where cs': "cs' = p # ps'" by (cases cs') auto
  with Cons.prems(2) ct have "cont_path h (next ct) ps'" by simp
  from Cons.IH [OF r this] cs' show ?case by simp
qed

lemma cont_path_suffix: "cont_path h c (xs @ p # ys) \<Longrightarrow> cont_path h (Some p) (p # ys)"
proof (induction xs arbitrary: c)
  case Nil
  then show ?case by simp
next
  case (Cons x xs)
  from Cons.prems obtain ct where "h x = Some ct" and "cont_path h (next ct) (xs @ p # ys)"
    by (auto split: option.splits)
  from Cons.IH [OF this(2)] show ?case .
qed

lemma cont_path_head_fresh:
  assumes "cont_path h c (p # ps)"
  shows "p \<notin> set ps"
proof
  assume "p \<in> set ps"
  then obtain xs ys where ps: "ps = xs @ p # ys" by (auto dest: split_list)
  from assms have c: "c = Some p" by simp
  from assms ps have "cont_path h c ((p # xs) @ p # ys)" by simp
  from cont_path_suffix [OF this] have a2: "cont_path h (Some p) (p # ys)" .
  have a1: "cont_path h (Some p) (p # ps)" using assms c by simp
  from cont_path_unique [OF a1 a2] have "p # ps = p # ys" .
  with ps show False by simp
qed

lemma cont_path_freed:
  "p \<notin> set cs \<Longrightarrow> cont_path (h(p := None)) c cs = cont_path h c cs"
  by (induction cs arbitrary: c) (auto split: option.splits)

lemma finish_conts_frees:
  assumes run: "finish_conts c s = Some s'"
  shows "s' = s\<lparr>conts := conts s'\<rparr> \<and>
     (\<forall>p. conts s p = None \<longrightarrow> conts s' p = None) \<and>
     (\<forall>cs. cont_path (conts s) c cs \<longrightarrow> (\<forall>p \<in> set cs. conts s' p = None))"
proof (induction c s s' rule: finish_conts.raw_induct)
  case (1 finish_conts c s s')
  show ?case
  proof (cases c)
    case None
    with "1.hyps" have "s' = s" by simp
    with None show ?thesis by (auto elim: cont_path.elims)
  next
    case (Some p)
    with "1.hyps" obtain ct where ct: "conts s p = Some ct"
      and r: "finish_conts (next ct) (s\<lparr>conts := (conts s)(p := None)\<rparr>) = Some s'"
      by (auto split: option.splits)
    let ?s1 = "s\<lparr>conts := (conts s)(p := None)\<rparr>"
    from "1.IH" [OF r] have
      a: "s' = ?s1\<lparr>conts := conts s'\<rparr>" and
      b: "\<forall>q. conts ?s1 q = None \<longrightarrow> conts s' q = None" and
      d: "\<forall>cs. cont_path (conts ?s1) (next ct) cs \<longrightarrow> (\<forall>q \<in> set cs. conts s' q = None)"
      by blast+
    have a': "s' = s\<lparr>conts := conts s'\<rparr>"
      by (subst a) simp
    have b': "\<forall>q. conts s q = None \<longrightarrow> conts s' q = None"
      using b by simp
    have p': "conts s' p = None" using b by simp
    have d': "\<forall>cs. cont_path (conts s) c cs \<longrightarrow> (\<forall>q \<in> set cs. conts s' q = None)"
    proof (intro allI impI ballI)
      fix cs q
      assume path: "cont_path (conts s) c cs" and q: "q \<in> set cs"
      from path Some ct obtain cs' where cs: "cs = p # cs'"
        and path': "cont_path (conts s) (next ct) cs'"
        by (cases cs) auto
      from cont_path_head_fresh [OF path [unfolded cs]] have "p \<notin> set cs'" .
      with path' have "cont_path (conts ?s1) (next ct) cs'"
        by (simp add: cont_path_freed)
      with d have "\<forall>x \<in> set cs'. conts s' x = None" by blast
      with q cs p' show "conts s' q = None" by auto
    qed
    from a' b' d' show ?thesis by blast
  qed
qed (fact run)

lemmas finishing_defs = finishing_state_def stopping_worker_def new_unit_def
  mjit_finish_def finish_wait_def finish_teardown_def stop_worker_def
  wait_pch_wakeup.simps wait_worker_stopped.simps free_unit_def finish_conts.simps Let_def

lemma finishing_wait:
  "\<exists>s1. finish_wait stopping_worker finishing_state = Some s1 \<and>
     chain (mjit_unit_queue s1) = [50] \<and>
     chain (mjit_active_units s1) = [100, 101] \<and>
     first_cont s1 = Some 400 \<and> conts s1 400 \<noteq> None \<and>
     cont_path (conts s1) (first_cont s1) [400] \<and>
     nodes s1 50 = Some \<lparr>unit = 60\<rparr> \<and> nodes s1 100 = Some \<lparr>unit = 200\<rparr>"
  by (simp add: finishing_defs running_defs)

lemma finishing_returns:
  "\<exists>s'. mjit_finish stopping_worker finishing_state = Some s'"
  by (simp add: finishing_defs running_defs)

text \<open>
  C8, as stated: after \<open>mjit_finish\<close> returns (subsystem enabled), the queue, the active
  list and the compact list are empty, and so is the continuation list.  \<open>free_list\<close> and
  \<open>finish_conts\<close> free what the lists hold but assign neither \<open>head\<close> nor \<open>length\<close> nor
  \<open>first_cont\<close>: after \<open>mjit_finish\<close> the heads still point at the (freed) first nodes
  and the lengths are what they were.
\<close>

theorem mjit_finish_lists_counterexample:
  "mjit_enabled finishing_state \<and>
   (case mjit_finish stopping_worker finishing_state of
      None \<Rightarrow> False
    | Some s' \<Rightarrow>
        head (mjit_unit_queue s') = Some 50 \<and> length_l (mjit_unit_queue s') = 1 \<and>
        head (mjit_active_units s') = Some 100 \<and> length_l (mjit_active_units s') = 2 \<and>
        first_cont s' = Some 400)"
  by (simp add: finishing_defs running_defs head_def)

text \<open>
  C8, amended: after \<open>mjit_finish\<close> returns (subsystem enabled), every node of the queue,
  of the active list and of the compact list has been freed together with the unit it
  held, and every continuation record reachable from \<open>first_cont\<close> has been freed;
  \<open>mjit_enabled\<close> and \<open>mjit_call_p\<close> are false; the three list headers and \<open>first_cont\<close>
  are as they were when the worker stopped.
\<close>

theorem mjit_finish_frees:
  assumes en: "mjit_enabled s" and wt: "finish_wait w s = Some s1"
    and run: "mjit_finish w s = Some s'"
  shows "\<not> mjit_enabled s' \<and> \<not> mjit_call_p s' \<and>
     mjit_unit_queue s' = mjit_unit_queue s1 \<and> mjit_active_units s' = mjit_active_units s1 \<and>
     mjit_compact_units s' = mjit_compact_units s1 \<and> first_cont s' = first_cont s1 \<and>
     (\<forall>n \<in> set (chain (mjit_unit_queue s1)) \<union> set (chain (mjit_active_units s1)) \<union>
            set (chain (mjit_compact_units s1)).
        nodes s' n = None \<and> (\<forall>nd. nodes s1 n = Some nd \<longrightarrow> units s' (unit nd) = None)) \<and>
     (\<forall>cs. cont_path (conts s1) (first_cont s1) cs \<longrightarrow> (\<forall>p \<in> set cs. conts s' p = None))"
proof -
  define s2 where "s2 =
    (if \<not> save_temps (mjit_opts s1)
     then s1\<lparr>removed_files := removed_files s1 @ [mjit_pch_file s1]\<rparr> else s1)
    \<lparr>mjit_header_file := None, mjit_tmp_dir := None, mjit_pch_file := None,
      mjit_call_p := False\<rparr>"
  from en wt run have td: "finish_teardown s1 = Some s'"
    by (simp add: mjit_finish_def)
  then obtain s3 s4 s5 s6 where
    f3: "free_list (chain (mjit_unit_queue s2)) s2 = Some s3" and
    f4: "free_list (chain (mjit_active_units s3)) s3 = Some s4" and
    f5: "free_list (chain (mjit_compact_units s4)) s4 = Some s5" and
    f6: "finish_conts (first_cont s5) s5 = Some s6" and
    s': "s' = s6\<lparr>mjit_enabled := False\<rparr>"
    by (auto simp: finish_teardown_def Let_def s2_def split: option.splits)
  have e2: "mjit_unit_queue s2 = mjit_unit_queue s1" "mjit_active_units s2 = mjit_active_units s1"
    "mjit_compact_units s2 = mjit_compact_units s1" "first_cont s2 = first_cont s1"
    "nodes s2 = nodes s1" "units s2 = units s1" "conts s2 = conts s1" "\<not> mjit_call_p s2"
    by (simp_all add: s2_def)
  note l3 = free_list_frees [OF f3] and l4 = free_list_frees [OF f4]
    and l5 = free_list_frees [OF f5] and l6 = finish_conts_frees [OF f6]
  from l3 have r3: "s3 = s2\<lparr>units := units s3, body := body s3, nodes := nodes s3\<rparr>" by blast
  from l4 have r4: "s4 = s3\<lparr>units := units s4, body := body s4, nodes := nodes s4\<rparr>" by blast
  from l5 have r5: "s5 = s4\<lparr>units := units s5, body := body s5, nodes := nodes s5\<rparr>" by blast
  from l6 have r6: "s6 = s5\<lparr>conts := conts s6\<rparr>" by blast
  have e3: "mjit_unit_queue s3 = mjit_unit_queue s2" "mjit_active_units s3 = mjit_active_units s2"
    "mjit_compact_units s3 = mjit_compact_units s2" "first_cont s3 = first_cont s2"
    "conts s3 = conts s2" "mjit_call_p s3 = mjit_call_p s2"
    by (subst r3, simp)+
  have e4: "mjit_unit_queue s4 = mjit_unit_queue s3" "mjit_active_units s4 = mjit_active_units s3"
    "mjit_compact_units s4 = mjit_compact_units s3" "first_cont s4 = first_cont s3"
    "conts s4 = conts s3" "mjit_call_p s4 = mjit_call_p s3"
    by (subst r4, simp)+
  have e5: "mjit_unit_queue s5 = mjit_unit_queue s4" "mjit_active_units s5 = mjit_active_units s4"
    "mjit_compact_units s5 = mjit_compact_units s4" "first_cont s5 = first_cont s4"
    "conts s5 = conts s4" "mjit_call_p s5 = mjit_call_p s4"
    by (subst r5, simp)+
  have e6: "mjit_unit_queue s6 = mjit_unit_queue s5" "mjit_active_units s6 = mjit_active_units s5"
    "mjit_compact_units s6 = mjit_compact_units s5" "first_cont s6 = first_cont s5"
    "nodes s6 = nodes s5" "units s6 = units s5" "mjit_call_p s6 = mjit_call_p s5"
    by (subst r6, simp)+
  have m3: "\<And>n. nodes s3 n = None \<Longrightarrow> nodes s' n = None"
    using l4 l5 by (simp add: s' e6)
  have mu3: "\<And>u. units s3 u = None \<Longrightarrow> units s' u = None"
    using l4 l5 by (simp add: s' e6)
  have m4: "\<And>n. nodes s4 n = None \<Longrightarrow> nodes s' n = None"
    using l5 by (simp add: s' e6)
  have mu4: "\<And>u. units s4 u = None \<Longrightarrow> units s' u = None"
    using l5 by (simp add: s' e6)
  have q: "\<forall>n \<in> set (chain (mjit_unit_queue s1)).
      nodes s' n = None \<and> (\<forall>nd. nodes s1 n = Some nd \<longrightarrow> units s' (unit nd) = None)"
  proof
    fix n assume "n \<in> set (chain (mjit_unit_queue s1))"
    with l3 obtain nd where x: "nodes s3 n = None"
      and y: "nodes s1 n = Some nd" "units s3 (unit nd) = None"
      by (auto simp: e2)
    from m3 [OF x] mu3 [OF y(2)] y(1)
    show "nodes s' n = None \<and> (\<forall>nd. nodes s1 n = Some nd \<longrightarrow> units s' (unit nd) = None)"
      by simp
  qed
  have k3: "\<And>n nd. nodes s1 n = Some nd \<Longrightarrow> nodes s3 n = Some nd \<or> nodes s3 n = None"
  proof -
    fix n nd assume nd: "nodes s1 n = Some nd"
    show "nodes s3 n = Some nd \<or> nodes s3 n = None"
    proof (cases "nodes s3 n")
      case None
      then show ?thesis by simp
    next
      case (Some x)
      from free_list_nodes_kept [OF f3 Some] have "nodes s1 n = Some x" by (simp add: e2)
      with nd Some show ?thesis by simp
    qed
  qed
  have k4: "\<And>n nd. nodes s1 n = Some nd \<Longrightarrow> nodes s4 n = Some nd \<or> nodes s4 n = None"
  proof -
    fix n nd assume nd: "nodes s1 n = Some nd"
    show "nodes s4 n = Some nd \<or> nodes s4 n = None"
    proof (cases "nodes s4 n")
      case None
      then show ?thesis by simp
    next
      case (Some x)
      from free_list_nodes_kept [OF f4 Some] have "nodes s3 n = Some x" .
      with k3 [OF nd] Some show ?thesis by simp
    qed
  qed
  have a: "\<forall>n \<in> set (chain (mjit_active_units s1)).
      nodes s' n = None \<and> (\<forall>nd. nodes s1 n = Some nd \<longrightarrow> units s' (unit nd) = None)"
  proof
    fix n assume n: "n \<in> set (chain (mjit_active_units s1))"
    then have n3: "n \<in> set (chain (mjit_active_units s3))" by (simp add: e3 e2)
    with l4 obtain nd3 where x: "nodes s4 n = None"
      and y: "nodes s3 n = Some nd3" "units s4 (unit nd3) = None" by blast
    have "\<forall>nd. nodes s1 n = Some nd \<longrightarrow> units s' (unit nd) = None"
      using k3 y mu4 by fastforce
    with m4 [OF x] show "nodes s' n = None \<and>
        (\<forall>nd. nodes s1 n = Some nd \<longrightarrow> units s' (unit nd) = None)" by simp
  qed
  have c: "\<forall>n \<in> set (chain (mjit_compact_units s1)).
      nodes s' n = None \<and> (\<forall>nd. nodes s1 n = Some nd \<longrightarrow> units s' (unit nd) = None)"
  proof
    fix n assume n: "n \<in> set (chain (mjit_compact_units s1))"
    then have n4: "n \<in> set (chain (mjit_compact_units s4))" by (simp add: e4 e3 e2)
    with l5 obtain nd4 where x: "nodes s5 n = None"
      and y: "nodes s4 n = Some nd4" "units s5 (unit nd4) = None" by blast
    have "\<forall>nd. nodes s1 n = Some nd \<longrightarrow> units s' (unit nd) = None"
      using k4 y by (fastforce simp: s' e6)
    with x show "nodes s' n = None \<and>
        (\<forall>nd. nodes s1 n = Some nd \<longrightarrow> units s' (unit nd) = None)" by (simp add: s' e6)
  qed
  have ct: "\<forall>cs. cont_path (conts s1) (first_cont s1) cs \<longrightarrow> (\<forall>p \<in> set cs. conts s' p = None)"
    using l6 by (simp add: s' e5 e4 e3 e2)
  have h: "\<not> mjit_enabled s'" "\<not> mjit_call_p s'"
    "mjit_unit_queue s' = mjit_unit_queue s1" "mjit_active_units s' = mjit_active_units s1"
    "mjit_compact_units s' = mjit_compact_units s1" "first_cont s' = first_cont s1"
    by (simp_all add: s' e6 e5 e4 e3 e2)
  from h q a c ct show ?thesis by blast
qed

theorem mjit_finish_frees_witness:
  "mjit_enabled finishing_state \<and>
   (\<exists>s1 s'. finish_wait stopping_worker finishing_state = Some s1 \<and>
      mjit_finish stopping_worker finishing_state = Some s' \<and>
      \<not> mjit_enabled s' \<and> \<not> mjit_call_p s' \<and>
      chain (mjit_unit_queue s') = [50] \<and>
      nodes s' 50 = None \<and> units s' 60 = None \<and>
      nodes s' 100 = None \<and> units s' 200 = None \<and> conts s' 400 = None)"
proof -
  have en: "mjit_enabled finishing_state"
    by (simp add: finishing_state_def running_defs)
  from finishing_wait obtain s1 where
    w: "finish_wait stopping_worker finishing_state = Some s1" and
    q: "chain (mjit_unit_queue s1) = [50]" and
    a: "chain (mjit_active_units s1) = [100, 101]" and
    p: "cont_path (conts s1) (first_cont s1) [400]" and
    n: "nodes s1 50 = Some \<lparr>unit = 60\<rparr>" "nodes s1 100 = Some \<lparr>unit = 200\<rparr>"
    by blast
  from finishing_returns obtain s' where
    r: "mjit_finish stopping_worker finishing_state = Some s'" ..
  from mjit_finish_frees [OF en w r] have
    f: "\<not> mjit_enabled s'" "\<not> mjit_call_p s'" "mjit_unit_queue s' = mjit_unit_queue s1"
    and g: "\<forall>n \<in> set (chain (mjit_unit_queue s1)) \<union> set (chain (mjit_active_units s1)) \<union>
            set (chain (mjit_compact_units s1)).
        nodes s' n = None \<and> (\<forall>nd. nodes s1 n = Some nd \<longrightarrow> units s' (unit nd) = None)"
    and h: "\<forall>cs. cont_path (conts s1) (first_cont s1) cs \<longrightarrow> (\<forall>p \<in> set cs. conts s' p = None)"
    by blast+
  from g q n(1) have x: "nodes s' 50 = None" "units s' 60 = None" by fastforce+
  from g a n(2) have y: "nodes s' 100 = None" "units s' 200 = None" by fastforce+
  from h p have z: "conts s' 400 = None" by fastforce
  from en w r f q x y z show ?thesis by auto
qed

end
